theory Spec2Isabelle
  imports Complex_Main "HOL-Library.Word"
begin

unbundle bit_operations_syntax

section \<open>Faults\<close>

text \<open>
  Every way in which the C code can stop without a result is a value of \<open>fault\<close>:
  a failed \<^verbatim>\<open>assert\<close>, an array access outside its block, an unsigned division by
  zero, a floating-point to integer conversion whose integral part does not fit the
  target type, a signed integer overflow, a store past the end of the caller's output
  buffer.  \<open>Out_Of_Fuel\<close> is the answer of a loop that
  has not finished within the number of iterations it was given.
\<close>

datatype fault =
    Assert_Failed
  | Out_Of_Bounds
  | Div_By_Zero
  | Undefined_Conversion
  | Signed_Overflow
  | Buffer_Overflow
  | Out_Of_Fuel

definition bnd :: "fault + 'a \<Rightarrow> ('a \<Rightarrow> fault + 'b) \<Rightarrow> fault + 'b" where
  "bnd m f = (case m of Inl e \<Rightarrow> Inl e | Inr x \<Rightarrow> f x)"

text \<open>A counted \<^verbatim>\<open>for\<close> loop over a list of indices, stopping at the first fault.\<close>

fun forM :: "nat list \<Rightarrow> (nat \<Rightarrow> 's \<Rightarrow> fault + 's) \<Rightarrow> 's \<Rightarrow> fault + 's" where
  "forM [] f s = Inr s"
| "forM (k # ks) f s = (case f k s of Inl e \<Rightarrow> Inl e | Inr s' \<Rightarrow> forM ks f s')"

text \<open>Reads and writes of a block of memory, checked against its length.\<close>

definition rd :: "'a list \<Rightarrow> nat \<Rightarrow> fault + 'a" where
  "rd xs k = (if k < length xs then Inr (xs ! k) else Inl Out_Of_Bounds)"

definition wr :: "'a list \<Rightarrow> nat \<Rightarrow> 'a \<Rightarrow> fault + 'a list" where
  "wr xs k v = (if k < length xs then Inr (xs[k := v]) else Inl Out_Of_Bounds)"

section \<open>IEEE 754 binary floating point\<close>

text \<open>
  A finite floating-point number is the rational it denotes; the two infinities and NaN
  are values of their own.  The sign of a zero is not kept (it is observable only
  through a division by that zero, taken here as a division by \<open>+0\<close>).  Arithmetic
  computes the exact rational result and rounds it to nearest, ties to even, in the
  format of the operation; a rounded result beyond the largest finite number is an
  infinity.  Expressions are evaluated in the type C gives them (\<^verbatim>\<open>FLT_EVAL_METHOD\<close> 0)
  and are not contracted into fused operations.
\<close>

function bitlen :: "int \<Rightarrow> nat" where
  "bitlen k = (if k \<le> 0 then 0 else Suc (bitlen (k div 2)))"
  by pat_completeness auto
termination
  by (relation "measure nat") auto

declare bitlen.simps [simp del]

definition pow2 :: "int \<Rightarrow> rat" where
  "pow2 e = (if 0 \<le> e then 2 ^ nat e else 1 / 2 ^ nat (- e))"

text \<open>\<open>ilog2 x\<close> is \<open>\<lfloor>log\<^sub>2 x\<rfloor>\<close> for \<open>x > 0\<close>.\<close>

definition ilog2 :: "rat \<Rightarrow> int" where
  "ilog2 x = (if 1 \<le> x then int (bitlen \<lfloor>x\<rfloor>) - 1
              else - int (bitlen (\<lceil>1 / x\<rceil> - 1)))"

definition round_half_even :: "rat \<Rightarrow> int" where
  "round_half_even x =
     (let f = \<lfloor>x\<rfloor>; d = x - of_int f
      in if d < 1 / 2 then f else if 1 / 2 < d then f + 1 else if even f then f else f + 1)"

definition round_half_away :: "rat \<Rightarrow> int" where
  "round_half_away x = (if 0 \<le> x then \<lfloor>x + 1 / 2\<rfloor> else \<lceil>x - 1 / 2\<rceil>)"

definition rat_trunc :: "rat \<Rightarrow> int" where
  "rat_trunc x = (if 0 \<le> x then \<lfloor>x\<rfloor> else \<lceil>x\<rceil>)"

record fp_format =
  prec :: nat
  emin :: int
  emax :: int

definition binary32 :: fp_format where
  "binary32 = \<lparr>prec = 24, emin = - 126, emax = 127\<rparr>"

definition binary64 :: fp_format where
  "binary64 = \<lparr>prec = 53, emin = - 1022, emax = 1023\<rparr>"

text \<open>The spacing of the format's numbers around \<open>x\<close>, and rounding to a multiple of it.\<close>

definition fp_quantum :: "fp_format \<Rightarrow> rat \<Rightarrow> rat" where
  "fp_quantum fmt x = pow2 (max (ilog2 \<bar>x\<bar>) (emin fmt) - (int (prec fmt) - 1))"

definition fp_round :: "fp_format \<Rightarrow> rat \<Rightarrow> rat" where
  "fp_round fmt x =
     (if x = 0 then 0
      else of_int (round_half_even (x / fp_quantum fmt x)) * fp_quantum fmt x)"

definition fp_max :: "fp_format \<Rightarrow> rat" where
  "fp_max fmt = (2 - pow2 (1 - int (prec fmt))) * pow2 (emax fmt)"

datatype fp = Fin rat | PInf | NInf | NaN

definition fp_of_rat :: "fp_format \<Rightarrow> rat \<Rightarrow> fp" where
  "fp_of_rat fmt x =
     (let y = fp_round fmt x
      in if fp_max fmt < y then PInf else if y < - fp_max fmt then NInf else Fin y)"

fun fp_sgn :: "fp \<Rightarrow> int" where
  "fp_sgn (Fin x) = (if x = 0 then 0 else if 0 < x then 1 else - 1)"
| "fp_sgn PInf = 1"
| "fp_sgn NInf = - 1"
| "fp_sgn NaN = 0"

definition fp_inf :: "int \<Rightarrow> fp" where
  "fp_inf s = (if s = 0 then NaN else if 0 < s then PInf else NInf)"

fun fp_neg :: "fp \<Rightarrow> fp" where
  "fp_neg (Fin x) = Fin (- x)"
| "fp_neg PInf = NInf"
| "fp_neg NInf = PInf"
| "fp_neg NaN = NaN"

fun fp_add :: "fp_format \<Rightarrow> fp \<Rightarrow> fp \<Rightarrow> fp" where
  "fp_add fmt (Fin x) (Fin y) = fp_of_rat fmt (x + y)"
| "fp_add fmt NaN _ = NaN"
| "fp_add fmt _ NaN = NaN"
| "fp_add fmt PInf NInf = NaN"
| "fp_add fmt NInf PInf = NaN"
| "fp_add fmt PInf _ = PInf"
| "fp_add fmt _ PInf = PInf"
| "fp_add fmt NInf _ = NInf"
| "fp_add fmt _ NInf = NInf"

definition fp_sub :: "fp_format \<Rightarrow> fp \<Rightarrow> fp \<Rightarrow> fp" where
  "fp_sub fmt a c = fp_add fmt a (fp_neg c)"

fun fp_mul :: "fp_format \<Rightarrow> fp \<Rightarrow> fp \<Rightarrow> fp" where
  "fp_mul fmt (Fin x) (Fin y) = fp_of_rat fmt (x * y)"
| "fp_mul fmt NaN _ = NaN"
| "fp_mul fmt _ NaN = NaN"
| "fp_mul fmt a c = fp_inf (fp_sgn a * fp_sgn c)"

fun fp_div :: "fp_format \<Rightarrow> fp \<Rightarrow> fp \<Rightarrow> fp" where
  "fp_div fmt (Fin x) (Fin y) = (if y = 0 then fp_inf (fp_sgn (Fin x)) else fp_of_rat fmt (x / y))"
| "fp_div fmt NaN _ = NaN"
| "fp_div fmt _ NaN = NaN"
| "fp_div fmt (Fin x) _ = Fin 0"
| "fp_div fmt a (Fin y) = fp_inf (fp_sgn a * (if y < 0 then - 1 else 1))"
| "fp_div fmt a c = NaN"

text \<open>\<^verbatim>\<open>floorf\<close> and \<^verbatim>\<open>roundf\<close>: the results are integers of the format, hence exact.\<close>

fun fp_floor :: "fp \<Rightarrow> fp" where
  "fp_floor (Fin x) = Fin (of_int \<lfloor>x\<rfloor>)"
| "fp_floor a = a"

fun fp_roundf :: "fp \<Rightarrow> fp" where
  "fp_roundf (Fin x) = Fin (of_int (round_half_away x))"
| "fp_roundf a = a"

text \<open>A conversion between formats (\<^verbatim>\<open>double\<close> to \<^verbatim>\<open>float\<close> rounds; the other way is exact).\<close>

fun fp_convert :: "fp_format \<Rightarrow> fp \<Rightarrow> fp" where
  "fp_convert fmt (Fin x) = fp_of_rat fmt x"
| "fp_convert fmt a = a"

text \<open>
  A conversion to an integer type discards the fraction; when the integral part is not
  a value of the type (or the operand is not finite) C leaves the behaviour undefined.
\<close>

fun fp_to_sword :: "fp \<Rightarrow> fault + 'a::len word" where
  "fp_to_sword (Fin x) =
     (let t = rat_trunc x
      in if - (2 ^ (LENGTH('a) - 1)) \<le> t \<and> t < 2 ^ (LENGTH('a) - 1)
         then Inr (word_of_int t) else Inl Undefined_Conversion)"
| "fp_to_sword a = Inl Undefined_Conversion"

fun fp_to_uword :: "fp \<Rightarrow> fault + 'a::len word" where
  "fp_to_uword (Fin x) =
     (let t = rat_trunc x
      in if 0 \<le> t \<and> t < 2 ^ LENGTH('a)
         then Inr (word_of_int t) else Inl Undefined_Conversion)"
| "fp_to_uword a = Inl Undefined_Conversion"

definition sword_to_fp :: "fp_format \<Rightarrow> 'a::len word \<Rightarrow> fp" where
  "sword_to_fp fmt w = fp_of_rat fmt (of_int (sint w))"

definition uword_to_fp :: "fp_format \<Rightarrow> 'a::len word \<Rightarrow> fp" where
  "uword_to_fp fmt w = fp_of_rat fmt (of_int (uint w))"

text \<open>Complex samples: a pair (real part, imaginary part).\<close>

type_synonym cfloat = "fp \<times> fp"
type_synonym cint32_t = "32 word \<times> 32 word"
type_synonym cint16_t = "16 word \<times> 16 word"

text \<open>A \<^verbatim>\<open>float\<close> times a \<^verbatim>\<open>float complex\<close>, and the sum of two \<^verbatim>\<open>float complex\<close>.\<close>

definition cscale :: "fp \<Rightarrow> cfloat \<Rightarrow> cfloat" where
  "cscale a z = (fp_mul binary32 a (fst z), fp_mul binary32 a (snd z))"

definition cadd :: "cfloat \<Rightarrow> cfloat \<Rightarrow> cfloat" where
  "cadd z w = (fp_add binary32 (fst z) (fst w), fp_add binary32 (snd z) (snd w))"

section \<open>The build configuration\<close>

text \<open>
  The preprocessor symbols that select code in \<^verbatim>\<open>resamp_q15.c\<close>.  The NEON branch is
  taken before the SSE2 branch; with neither the portable C loops are compiled.
\<close>

record build =
  HAVE_NEON :: bool
  HAVE_SSE2 :: bool
  USE_FAST_MATH :: bool

definition NUM_TAPS :: "build \<Rightarrow> 32 word" where
  "NUM_TAPS cfg = (if USE_FAST_MATH cfg then 8 else 16)"

definition WINDOW_SIZE :: nat where
  "WINDOW_SIZE = 2048"

section \<open>Fixed-point samples\<close>

text \<open>
  The literal \<^verbatim>\<open>2147483647.0f\<close> is the \<^verbatim>\<open>float\<close> nearest to \<open>2\<^sup>3\<^sup>1 - 1\<close>;
  \<^verbatim>\<open>2147483647.0\<close> is a \<^verbatim>\<open>double\<close>.
\<close>

definition cf_to_cq31 :: "cfloat \<Rightarrow> fault + cint32_t" where
  "cf_to_cq31 x =
     bnd (fp_to_sword (fp_mul binary32 (fst x) (fp_of_rat binary32 2147483647))) (\<lambda>re.
     bnd (fp_to_sword (fp_mul binary32 (snd x) (fp_of_rat binary32 2147483647))) (\<lambda>im.
     Inr (re, im)))"

definition cq31_to_cf :: "cint32_t \<Rightarrow> cfloat" where
  "cq31_to_cf cq31 =
     (fp_div binary32 (sword_to_fp binary32 (fst cq31)) (fp_of_rat binary32 2147483647),
      fp_div binary32 (sword_to_fp binary32 (snd cq31)) (fp_of_rat binary32 2147483647))"

section \<open>The polyphase filter bank\<close>

text \<open>
  \<^verbatim>\<open>firpfb_q31\<close> and \<^verbatim>\<open>firpfb_q15\<close> are the same structure at two element types:
  \<open>'c\<close> is the type of a coefficient, \<open>'s\<close> the type of a window sample.
\<close>

record ('c, 's) firpfb =
  nf :: "32 word"
  h :: "'c list"
  h_len :: "32 word"
  h_sub_len :: "32 word"
  window :: "'s list"
  idx :: "32 word"

type_synonym firpfb_q31 = "(32 word, cint32_t) firpfb"
type_synonym firpfb_q15 = "(16 word, cint16_t) firpfb"

text \<open>
  The two nested loops that fill the coefficient table; \<open>quant\<close> is the conversion of
  one \<^verbatim>\<open>float\<close> coefficient to the table's integer type.  Indices are computed in
  \<^verbatim>\<open>unsigned int\<close>.
\<close>

definition fill_taps ::
  "(fp \<Rightarrow> fault + 'c) \<Rightarrow> 32 word \<Rightarrow> 32 word \<Rightarrow> fp list \<Rightarrow> 'c list \<Rightarrow> fault + 'c list" where
  "fill_taps quant n_f sub_len hf tab =
     forM [0..<unat n_f] (\<lambda>i.
       forM [0..<unat sub_len] (\<lambda>j t.
         bnd (rd hf (unat ((sub_len - 1 - of_nat j) * n_f + of_nat i))) (\<lambda>c0.
         bnd (quant c0) (\<lambda>v0.
         bnd (wr t (unat ((of_nat i * sub_len + of_nat j) * 2)) v0) (\<lambda>t1.
         bnd (rd hf (unat ((sub_len - 1 - of_nat j) * n_f + of_nat i))) (\<lambda>c1.
         bnd (quant c1) (\<lambda>v1.
         wr t1 (unat ((of_nat i * sub_len + of_nat j) * 2 + 1)) v1))))))) tab"

text \<open>
  \<^verbatim>\<open>roundf(_h[..] * 2147483647.0)\<close>: the product is a \<^verbatim>\<open>double\<close>, converted to
  \<^verbatim>\<open>float\<close> for \<^verbatim>\<open>roundf\<close>, whose result is converted to \<^verbatim>\<open>int32_t\<close>.
\<close>

definition quant_q31 :: "fp \<Rightarrow> fault + 32 word" where
  "quant_q31 c =
     fp_to_sword (fp_roundf (fp_convert binary32 (fp_mul binary64 c (fp_of_rat binary64 2147483647))))"

text \<open>\<^verbatim>\<open>_h[..] * 32767.0f\<close>, a \<^verbatim>\<open>float\<close>, converted to \<^verbatim>\<open>int16_t\<close>.\<close>

definition quant_q15 :: "fp \<Rightarrow> fault + 16 word" where
  "quant_q15 c = fp_to_sword (fp_mul binary32 c (fp_of_rat binary32 32767))"

text \<open>
  \<open>junk\<close> gives the contents of the block \<^verbatim>\<open>malloc\<close> returns for the table, which the C
  code does not initialise.
\<close>

definition firpfb_q31_create ::
  "build \<Rightarrow> (nat \<Rightarrow> 32 word) \<Rightarrow> 32 word \<Rightarrow> fp list \<Rightarrow> 32 word \<Rightarrow> fault + firpfb_q31" where
  "firpfb_q31_create cfg junk n_f hf len =
     (if n_f = 0 then Inl Div_By_Zero
      else let sub_len = len div n_f
        in if sub_len * n_f \<noteq> len then Inl Assert_Failed
           else if sub_len \<noteq> NUM_TAPS cfg then Inl Assert_Failed
           else bnd (fill_taps quant_q31 n_f sub_len hf (map junk [0..<2 * unat len])) (\<lambda>tab.
                Inr \<lparr>nf = n_f, h = tab, h_len = len, h_sub_len = sub_len,
                     window = replicate WINDOW_SIZE (0, 0), idx = sub_len - 1\<rparr>))"

definition firpfb_q15_create ::
  "(nat \<Rightarrow> 16 word) \<Rightarrow> 32 word \<Rightarrow> fp list \<Rightarrow> 32 word \<Rightarrow> fault + firpfb_q15" where
  "firpfb_q15_create junk n_f hf len =
     (if n_f = 0 then Inl Div_By_Zero
      else let sub_len = len div n_f
        in if sub_len * n_f \<noteq> len then Inl Assert_Failed
           else if sub_len \<noteq> 16 then Inl Assert_Failed
           else bnd (fill_taps quant_q15 n_f sub_len hf (map junk [0..<2 * unat len])) (\<lambda>tab.
                Inr \<lparr>nf = n_f, h = tab, h_len = len, h_sub_len = sub_len,
                     window = replicate WINDOW_SIZE (0, 0), idx = sub_len - 1\<rparr>))"

text \<open>\<^verbatim>\<open>firpfb_q31_push\<close> and \<^verbatim>\<open>firpfb_q15_push\<close> have the same body.\<close>

definition firpfb_push :: "('c, 's) firpfb \<Rightarrow> 's \<Rightarrow> fault + ('c, 's) firpfb" where
  "firpfb_push q x =
     bnd (if idx q = of_nat WINDOW_SIZE
          then bnd (forM [0..<unat (h_sub_len q - 1)] (\<lambda>i w.
                      bnd (rd w (unat (idx q - h_sub_len q + of_nat i))) (\<lambda>v. wr w i v))
                    (window q)) (\<lambda>w.
               Inr (q\<lparr>window := w, idx := h_sub_len q - 1\<rparr>))
          else Inr q) (\<lambda>q1.
     bnd (wr (window q1) (unat (idx q1)) x) (\<lambda>w.
     Inr (q1\<lparr>window := w, idx := idx q1 + 1\<rparr>)))"

definition firpfb_q31_push :: "firpfb_q31 \<Rightarrow> cint32_t \<Rightarrow> fault + firpfb_q31" where
  "firpfb_q31_push = firpfb_push"

definition firpfb_q15_push :: "firpfb_q15 \<Rightarrow> cint16_t \<Rightarrow> fault + firpfb_q15" where
  "firpfb_q15_push = firpfb_push"

section \<open>The dot product backends\<close>

text \<open>
  A pointer argument is a block together with an offset into it.  \<open>ld\<close> reads \<open>n\<close>
  consecutive elements, \<open>ld_cplx\<close> reads \<open>n\<close> complex samples as \<open>2 * n\<close> integers
  (real part first), the way a vector load through a cast pointer sees them.
\<close>

definition ld :: "'a list \<Rightarrow> nat \<Rightarrow> nat \<Rightarrow> fault + 'a list" where
  "ld xs off n = (if off + n \<le> length xs then Inr (take n (drop off xs)) else Inl Out_Of_Bounds)"

definition ld_cplx :: "('a \<times> 'a) list \<Rightarrow> nat \<Rightarrow> nat \<Rightarrow> fault + 'a list" where
  "ld_cplx xs off n =
     (if off + n \<le> length xs
      then Inr (concat (map (\<lambda>z. [fst z, snd z]) (take n (drop off xs))))
      else Inl Out_Of_Bounds)"

definition sat_sword :: "int \<Rightarrow> 'a::len word" where
  "sat_sword x = word_of_int (max (- (2 ^ (LENGTH('a) - 1))) (min (2 ^ (LENGTH('a) - 1) - 1) x))"

text \<open>Addition of two \<^verbatim>\<open>int\<close> values: an overflow is undefined in C.\<close>

definition sadd32 :: "32 word \<Rightarrow> 32 word \<Rightarrow> fault + 32 word" where
  "sadd32 x y =
     (if - (2 ^ 31) \<le> sint x + sint y \<and> sint x + sint y < 2 ^ 31 then Inr (x + y)
      else Inl Signed_Overflow)"

subsection \<open>32 bit, portable\<close>

definition dotprod_q31_scalar ::
  "cint32_t list \<Rightarrow> nat \<Rightarrow> 32 word list \<Rightarrow> nat \<Rightarrow> int \<Rightarrow> fault + cint32_t" where
  "dotprod_q31_scalar a aoff c coff n =
     bnd (forM [0..<nat n] (\<lambda>i acc.
            bnd (rd a (aoff + i)) (\<lambda>ai.
            bnd (rd c (coff + i * 2)) (\<lambda>ci.
            Inr (cadd acc
                  (cscale (fp_div binary32 (sword_to_fp binary32 ci) (fp_of_rat binary32 2147483647))
                          (cq31_to_cf ai))))))
          (Fin 0, Fin 0))
       cf_to_cq31"

subsection \<open>32 bit, NEON\<close>

text \<open>
  \<^verbatim>\<open>vqrdmulhq_s32\<close>: the saturated high half of the doubled product, rounded;
  \<^verbatim>\<open>vqaddq_s32\<close>: saturated addition.  A vector of four lanes holds two complex samples.
\<close>

definition vqrdmulh :: "'a::len word \<Rightarrow> 'a word \<Rightarrow> 'a word" where
  "vqrdmulh x y = sat_sword ((2 * sint x * sint y + 2 ^ (LENGTH('a) - 1)) div 2 ^ LENGTH('a))"

definition vqadd :: "'a::len word \<Rightarrow> 'a word \<Rightarrow> 'a word" where
  "vqadd x y = sat_sword (sint x + sint y)"

definition neon_mul_q31 ::
  "cint32_t list \<Rightarrow> nat \<Rightarrow> 32 word list \<Rightarrow> nat \<Rightarrow> nat \<Rightarrow> fault + 32 word list" where
  "neon_mul_q31 a aoff c coff k =
     bnd (ld_cplx a (aoff + k) 2) (\<lambda>va.
     bnd (ld c (coff + k * 2) 4) (\<lambda>vc.
     Inr (map2 vqrdmulh va vc)))"

definition dotprod_q31_neon ::
  "build \<Rightarrow> cint32_t list \<Rightarrow> nat \<Rightarrow> 32 word list \<Rightarrow> nat \<Rightarrow> fault + cint32_t" where
  "dotprod_q31_neon cfg a aoff c coff =
     bnd (neon_mul_q31 a aoff c coff 0) (\<lambda>s1.
     bnd (neon_mul_q31 a aoff c coff 2) (\<lambda>s2.
     bnd (neon_mul_q31 a aoff c coff 4) (\<lambda>s3.
     bnd (neon_mul_q31 a aoff c coff 6) (\<lambda>s4.
     bnd (if NUM_TAPS cfg = 16
          then bnd (neon_mul_q31 a aoff c coff 8) (\<lambda>t1.
               bnd (neon_mul_q31 a aoff c coff 10) (\<lambda>t2.
               bnd (neon_mul_q31 a aoff c coff 12) (\<lambda>t3.
               bnd (neon_mul_q31 a aoff c coff 14) (\<lambda>t4.
               Inr (map2 vqadd (map2 vqadd t3 t4)
                      (map2 vqadd (map2 vqadd t1 t2)
                        (map2 vqadd (map2 vqadd s1 s2) (map2 vqadd s3 s4))))))))
          else Inr (map2 vqadd (map2 vqadd s1 s2) (map2 vqadd s3 s4))) (\<lambda>acc.
     bnd (sadd32 (acc ! 0) (acc ! 2)) (\<lambda>re.
     bnd (sadd32 (acc ! 1) (acc ! 3)) (\<lambda>im.
     Inr (re, im))))))))"

subsection \<open>32 bit, SSE2\<close>

text \<open>
  \<^verbatim>\<open>(float)(1 << 31)\<close>: the shift is done in \<^verbatim>\<open>int\<close> and gives the most negative
  value (GCC and Clang define it so), hence the scale factor is \<open>- 2\<^sup>3\<^sup>1\<close>.
  \<^verbatim>\<open>_mm_cvtps_epi32\<close> rounds to nearest, ties to even, and gives \<^verbatim>\<open>0x80000000\<close> when
  the result is not an \<^verbatim>\<open>int32_t\<close>.
\<close>

definition sse_shift :: fp where
  "sse_shift = sword_to_fp binary32 (push_bit 31 (1 :: 32 word))"

fun cvtps_epi32 :: "fp \<Rightarrow> 32 word" where
  "cvtps_epi32 (Fin x) =
     (let t = round_half_even x
      in if - (2 ^ 31) \<le> t \<and> t < 2 ^ 31 then word_of_int t else 0x80000000)"
| "cvtps_epi32 a = 0x80000000"

definition sse_mul_q31 ::
  "cint32_t list \<Rightarrow> nat \<Rightarrow> 32 word list \<Rightarrow> nat \<Rightarrow> nat \<Rightarrow> fault + fp list" where
  "sse_mul_q31 a aoff c coff k =
     bnd (ld_cplx a (aoff + k) 2) (\<lambda>va.
     bnd (ld c (coff + k * 2) 4) (\<lambda>vc.
     Inr (map2 (fp_mul binary32)
            (map (\<lambda>w. fp_div binary32 (sword_to_fp binary32 w) sse_shift) va)
            (map (\<lambda>w. fp_div binary32 (sword_to_fp binary32 w) sse_shift) vc))))"

definition dotprod_q31_sse2 ::
  "build \<Rightarrow> cint32_t list \<Rightarrow> nat \<Rightarrow> 32 word list \<Rightarrow> nat \<Rightarrow> fault + cint32_t" where
  "dotprod_q31_sse2 cfg a aoff c coff =
     bnd (sse_mul_q31 a aoff c coff 0) (\<lambda>p1.
     bnd (sse_mul_q31 a aoff c coff 2) (\<lambda>p2.
     bnd (sse_mul_q31 a aoff c coff 4) (\<lambda>p3.
     bnd (sse_mul_q31 a aoff c coff 6) (\<lambda>p4.
     bnd (if NUM_TAPS cfg = 16
          then bnd (sse_mul_q31 a aoff c coff 8) (\<lambda>r1.
               bnd (sse_mul_q31 a aoff c coff 10) (\<lambda>r2.
               bnd (sse_mul_q31 a aoff c coff 12) (\<lambda>r3.
               bnd (sse_mul_q31 a aoff c coff 14) (\<lambda>r4.
               Inr (map2 (fp_add binary32) (map2 (fp_add binary32) r3 r4)
                      (map2 (fp_add binary32) (map2 (fp_add binary32) r1 r2)
                        (map2 (fp_add binary32) (map2 (fp_add binary32) p1 p2)
                                                (map2 (fp_add binary32) p3 p4))))))))
          else Inr (map2 (fp_add binary32) (map2 (fp_add binary32) p1 p2)
                                           (map2 (fp_add binary32) p3 p4))) (\<lambda>acc.
     let res = map (\<lambda>v. cvtps_epi32 (fp_mul binary32 v sse_shift)) acc
     in bnd (sadd32 (res ! 0) (res ! 2)) (\<lambda>re.
        bnd (sadd32 (res ! 1) (res ! 3)) (\<lambda>im.
        Inr (re, im))))))))"

definition dotprod_q31 ::
  "build \<Rightarrow> cint32_t list \<Rightarrow> nat \<Rightarrow> 32 word list \<Rightarrow> nat \<Rightarrow> int \<Rightarrow> fault + cint32_t" where
  "dotprod_q31 cfg a aoff c coff n =
     (if HAVE_NEON cfg then dotprod_q31_neon cfg a aoff c coff
      else if HAVE_SSE2 cfg then dotprod_q31_sse2 cfg a aoff c coff
      else dotprod_q31_scalar a aoff c coff n)"

definition firpfb_q31_execute :: "build \<Rightarrow> firpfb_q31 \<Rightarrow> 32 word \<Rightarrow> fault + cint32_t" where
  "firpfb_q31_execute cfg q f =
     dotprod_q31 cfg (window q) (unat (idx q - h_sub_len q))
       (h q) (unat (f * 2 * h_sub_len q)) (sint (h_sub_len q))"

subsection \<open>16 bit, portable\<close>

text \<open>
  The products are computed in \<^verbatim>\<open>int\<close>; the shift of a negative \<^verbatim>\<open>int\<close> is arithmetic
  and the assignment to \<^verbatim>\<open>int16_t\<close> keeps the low 16 bits (as GCC and Clang define both).
\<close>

definition dotprod_q15_scalar ::
  "cint16_t list \<Rightarrow> nat \<Rightarrow> 16 word list \<Rightarrow> nat \<Rightarrow> int \<Rightarrow> fault + cint16_t" where
  "dotprod_q15_scalar a aoff c coff n =
     forM [0..<nat n] (\<lambda>i acc.
       bnd (rd a (aoff + i)) (\<lambda>ai.
       bnd (rd c (coff + i * 2)) (\<lambda>c0.
       let re = word_of_int (sint (fst acc) + (sint (fst ai) * sint c0) div 2 ^ 15)
       in bnd (rd c (coff + i * 2)) (\<lambda>c1.
          Inr (re, word_of_int (sint (snd acc) + (sint (snd ai) * sint c1) div 2 ^ 15))))))
       (0, 0)"

subsection \<open>16 bit, NEON\<close>

text \<open>
  A vector of eight lanes holds four complex samples.  \<^verbatim>\<open>vuzp_s16\<close> of the high and
  the low half separates real and imaginary parts; \<^verbatim>\<open>vpadd_s16\<close> adds neighbours
  (wrapping).
\<close>

definition neon_mul_q15 ::
  "cint16_t list \<Rightarrow> nat \<Rightarrow> 16 word list \<Rightarrow> nat \<Rightarrow> nat \<Rightarrow> fault + 16 word list" where
  "neon_mul_q15 a aoff c coff k =
     bnd (ld_cplx a (aoff + k) 4) (\<lambda>va.
     bnd (ld c (coff + k * 2) 8) (\<lambda>vc.
     Inr (map2 vqrdmulh va vc)))"

definition vpadd :: "'a::len word list \<Rightarrow> 'a word list \<Rightarrow> 'a word list" where
  "vpadd u v = [u ! 0 + u ! 1, u ! 2 + u ! 3, v ! 0 + v ! 1, v ! 2 + v ! 3]"

definition dotprod_q15_neon ::
  "build \<Rightarrow> cint16_t list \<Rightarrow> nat \<Rightarrow> 16 word list \<Rightarrow> nat \<Rightarrow> fault + cint16_t" where
  "dotprod_q15_neon cfg a aoff c coff =
     bnd (neon_mul_q15 a aoff c coff 0) (\<lambda>s1.
     bnd (neon_mul_q15 a aoff c coff 4) (\<lambda>s2.
     bnd (neon_mul_q15 a aoff c coff 8) (\<lambda>s3.
     bnd (neon_mul_q15 a aoff c coff 12) (\<lambda>s4.
     bnd (if \<not> USE_FAST_MATH cfg
          then bnd (neon_mul_q15 a aoff c coff 16) (\<lambda>t1.
               bnd (neon_mul_q15 a aoff c coff 20) (\<lambda>t2.
               bnd (neon_mul_q15 a aoff c coff 24) (\<lambda>t3.
               bnd (neon_mul_q15 a aoff c coff 28) (\<lambda>t4.
               Inr (map2 vqadd (map2 vqadd t3 t4)
                      (map2 vqadd (map2 vqadd t1 t2)
                        (map2 vqadd (map2 vqadd s1 s2) (map2 vqadd s3 s4))))))))
          else Inr (map2 vqadd (map2 vqadd s1 s2) (map2 vqadd s3 s4))) (\<lambda>acc.
     let hi = drop 4 acc; lo = take 4 acc;
         val0 = [hi ! 0, hi ! 2, lo ! 0, lo ! 2];
         val1 = [hi ! 1, hi ! 3, lo ! 1, lo ! 3];
         sum3 = vpadd val0 val1;
         sum4 = vpadd sum3 sum3
     in Inr (sum4 ! 0, sum4 ! 1))))))"

definition dotprod_q15 ::
  "build \<Rightarrow> cint16_t list \<Rightarrow> nat \<Rightarrow> 16 word list \<Rightarrow> nat \<Rightarrow> int \<Rightarrow> fault + cint16_t" where
  "dotprod_q15 cfg a aoff c coff n =
     (if HAVE_NEON cfg then dotprod_q15_neon cfg a aoff c coff
      else dotprod_q15_scalar a aoff c coff n)"

definition firpfb_q15_execute :: "build \<Rightarrow> firpfb_q15 \<Rightarrow> 32 word \<Rightarrow> fault + cint16_t" where
  "firpfb_q15_execute cfg q f =
     dotprod_q15 cfg (window q) (unat (idx q - h_sub_len q))
       (h q) (unat (f * 2 * h_sub_len q)) (sint (h_sub_len q))"

section \<open>The resampler\<close>

datatype resamp_state = RESAMP_STATE_BOUNDARY | RESAMP_STATE_INTERP

record resamp_q15 =
  rate :: fp
  del :: fp
  tau :: fp
  bf :: fp
  b :: "32 word"
  mu :: fp
  y0 :: cint32_t
  y1 :: cint32_t
  npfb :: "32 word"
  pfb :: firpfb_q31
  state :: resamp_state

text \<open>
  What \<^verbatim>\<open>malloc\<close> leaves in the memory that \<^verbatim>\<open>resamp_q15_create\<close> does not
  initialise: the coefficient table before it is filled, and the fields \<^verbatim>\<open>bf\<close>,
  \<^verbatim>\<open>y0\<close> and \<^verbatim>\<open>y1\<close>.
\<close>

record garbage =
  g_tab :: "nat \<Rightarrow> 32 word"
  g_bf :: fp
  g_y0 :: cint32_t
  g_y1 :: cint32_t

text \<open>
  \<^verbatim>\<open>firdes_kaiser\<close> is declared in \<^verbatim>\<open>firdes.h\<close>, outside these sources: the filter
  designer is a parameter, called with the length, the cutoff, the attenuation and the
  offset \<^verbatim>\<open>0.0f\<close>, and returning the contents it leaves in \<^verbatim>\<open>hf\<close>.
\<close>

type_synonym designer = "32 word \<Rightarrow> fp \<Rightarrow> fp \<Rightarrow> fp \<Rightarrow> fp list"

text \<open>
  The first part of \<^verbatim>\<open>resamp_q15_create\<close>: the designed taps \<^verbatim>\<open>hf\<close>, the gain
  \<^verbatim>\<open>q->npfb / gain\<close> from their sum accumulated in single precision, the taps
  multiplied by it, and the three steps together.
\<close>

definition resamp_design :: "designer \<Rightarrow> 32 word \<Rightarrow> fp \<Rightarrow> fp \<Rightarrow> 32 word \<Rightarrow> fp list" where
  "resamp_design firdes_kaiser m fc As n_pfb =
     firdes_kaiser (2 * m * n_pfb + 1) (fp_div binary32 fc (uword_to_fp binary32 n_pfb)) As (Fin 0)"

definition resamp_gain :: "32 word \<Rightarrow> fp list \<Rightarrow> 32 word \<Rightarrow> fault + fp" where
  "resamp_gain n hf n_pfb =
     bnd (forM [0..<unat n] (\<lambda>i gain. bnd (rd hf i) (\<lambda>c. Inr (fp_add binary32 gain c))) (Fin 0))
       (\<lambda>gain. Inr (fp_div binary32 (uword_to_fp binary32 n_pfb) gain))"

definition resamp_normalize :: "32 word \<Rightarrow> fp list \<Rightarrow> fp \<Rightarrow> fault + fp list" where
  "resamp_normalize n hf gain =
     forM [0..<unat n] (\<lambda>i hs. bnd (rd hs i) (\<lambda>c. wr hs i (fp_mul binary32 c gain))) hf"

definition resamp_taps :: "designer \<Rightarrow> 32 word \<Rightarrow> fp \<Rightarrow> fp \<Rightarrow> 32 word \<Rightarrow> fault + fp list" where
  "resamp_taps firdes_kaiser m fc As n_pfb =
     (let n = 2 * m * n_pfb + 1;
          hf = resamp_design firdes_kaiser m fc As n_pfb
      in bnd (resamp_gain n hf n_pfb) (\<lambda>gain. resamp_normalize n hf gain))"

definition resamp_q15_create ::
  "build \<Rightarrow> designer \<Rightarrow> garbage \<Rightarrow> 32 word \<Rightarrow> fp \<Rightarrow> fp \<Rightarrow> 32 word \<Rightarrow> fault + resamp_q15" where
  "resamp_q15_create cfg firdes_kaiser g m fc As n_pfb =
     (let n = 2 * m * n_pfb + 1
      in bnd (resamp_taps firdes_kaiser m fc As n_pfb) (\<lambda>hf.
         bnd (firpfb_q31_create cfg (g_tab g) n_pfb hf (n - 1)) (\<lambda>p.
         Inr \<lparr>rate = Fin 1, del = Fin 1, tau = Fin 0, bf = g_bf g, b = 0, mu = Fin 0,
              y0 = g_y0 g, y1 = g_y1 g, npfb = n_pfb, pfb = p,
              state = RESAMP_STATE_INTERP\<rparr>)))"

definition resamp_q15_set_rate :: "resamp_q15 \<Rightarrow> fp \<Rightarrow> resamp_q15" where
  "resamp_q15_set_rate q r = q\<lparr>rate := r, del := fp_div binary32 (Fin 1) r\<rparr>"

definition update_timing_state :: "resamp_q15 \<Rightarrow> fault + resamp_q15" where
  "update_timing_state q =
     (let q1 = q\<lparr>tau := fp_add binary32 (tau q) (del q)\<rparr>;
          q2 = q1\<lparr>bf := fp_mul binary32 (tau q1) (uword_to_fp binary32 (npfb q1))\<rparr>
      in bnd (fp_to_uword (fp_floor (bf q2))) (\<lambda>base.
         let q3 = q2\<lparr>b := base\<rparr>
         in Inr (q3\<lparr>mu := fp_sub binary32 (bf q3) (uword_to_fp binary32 (b q3))\<rparr>)))"

text \<open>The linear interpolation \<^verbatim>\<open>(1.0f - q->mu)*cq31_to_cf(q->y0) + q->mu*cq31_to_cf(q->y1)\<close>.\<close>

definition interpolate :: "resamp_q15 \<Rightarrow> cfloat" where
  "interpolate q =
     cadd (cscale (fp_sub binary32 (Fin 1) (mu q)) (cq31_to_cf (y0 q)))
          (cscale (mu q) (cq31_to_cf (y1 q)))"

text \<open>
  \<^verbatim>\<open>y[n++] = v\<close>: \<open>y\<close> is the caller's buffer, of whatever length the caller gave it;
  a store past its end is the fault \<open>Buffer_Overflow\<close>.
\<close>

definition store :: "cfloat list \<Rightarrow> 32 word \<Rightarrow> cfloat \<Rightarrow> fault + (cfloat list \<times> 32 word)" where
  "store y n v = (if unat n < length y then Inr (y[unat n := v], n + 1) else Inl Buffer_Overflow)"

text \<open>One pass through the body of the \<^verbatim>\<open>while\<close> loop of \<^verbatim>\<open>resamp_q15_execute\<close>.\<close>

definition resamp_iter ::
  "build \<Rightarrow> resamp_q15 \<Rightarrow> cfloat list \<Rightarrow> 32 word \<Rightarrow> fault + (resamp_q15 \<times> cfloat list \<times> 32 word)" where
  "resamp_iter cfg q y n =
     (if state q = RESAMP_STATE_INTERP
      then bnd (firpfb_q31_execute cfg (pfb q) (b q)) (\<lambda>v0.
           let q1 = q\<lparr>y0 := v0\<rparr>
           in if b q1 = npfb q1 - 1
              then Inr (q1\<lparr>state := RESAMP_STATE_BOUNDARY, b := npfb q1\<rparr>, y, n)
              else bnd (firpfb_q31_execute cfg (pfb q1) (b q1 + 1)) (\<lambda>v1.
                   let q2 = q1\<lparr>y1 := v1\<rparr>
                   in bnd (store y n (interpolate q2)) (\<lambda>(y', n').
                      bnd (update_timing_state q2) (\<lambda>q3. Inr (q3, y', n')))))
      else bnd (firpfb_q31_execute cfg (pfb q) 0) (\<lambda>v1.
           let q1 = q\<lparr>y1 := v1\<rparr>
           in bnd (store y n (interpolate q1)) (\<lambda>(y', n').
              bnd (update_timing_state q1) (\<lambda>q2.
              Inr (q2\<lparr>state := RESAMP_STATE_INTERP\<rparr>, y', n')))))"

text \<open>
  The \<^verbatim>\<open>while\<close> loop.  Nothing in the C code bounds the number of its passes, so the
  model is given the number of passes it may make.
\<close>

fun resamp_loop ::
  "build \<Rightarrow> nat \<Rightarrow> resamp_q15 \<Rightarrow> cfloat list \<Rightarrow> 32 word \<Rightarrow>
   fault + (resamp_q15 \<times> cfloat list \<times> 32 word)" where
  "resamp_loop cfg 0 q y n = (if b q < npfb q then Inl Out_Of_Fuel else Inr (q, y, n))"
| "resamp_loop cfg (Suc fuel) q y n =
     (if b q < npfb q
      then bnd (resamp_iter cfg q y n) (\<lambda>(q', y', n'). resamp_loop cfg fuel q' y' n')
      else Inr (q, y, n))"

text \<open>The statements after the loop: the timing phase is moved back by one input sample.\<close>

definition resamp_rebase :: "resamp_q15 \<Rightarrow> resamp_q15" where
  "resamp_rebase q =
     (let q1 = q\<lparr>tau := fp_sub binary32 (tau q) (Fin 1)\<rparr>;
          q2 = q1\<lparr>bf := fp_sub binary32 (bf q1) (uword_to_fp binary32 (npfb q1))\<rparr>
      in q2\<lparr>b := b q2 - npfb q2\<rparr>)"

text \<open>
  \<^verbatim>\<open>resamp_q15_execute\<close>: the input sample is widened to 32 bits and shifted left by
  16 (two's complement, as GCC and Clang define the shift of a negative value).  The
  result is the new state, the caller's buffer and the count stored through \<^verbatim>\<open>pn\<close>.
\<close>

definition widen :: "cint16_t \<Rightarrow> cint32_t" where
  "widen x = (push_bit 16 (scast (fst x)), push_bit 16 (scast (snd x)))"

definition resamp_q15_execute ::
  "build \<Rightarrow> nat \<Rightarrow> resamp_q15 \<Rightarrow> cint16_t \<Rightarrow> cfloat list \<Rightarrow>
   fault + (resamp_q15 \<times> cfloat list \<times> 32 word)" where
  "resamp_q15_execute cfg fuel q x y =
     bnd (firpfb_q31_push (pfb q) (widen x)) (\<lambda>p.
     bnd (resamp_loop cfg fuel (q\<lparr>pfb := p\<rparr>) y 0) (\<lambda>(q1, y', n).
     Inr (resamp_rebase q1, y', n)))"

section \<open>Notions used in the statements\<close>

text \<open>The table the two loops leave: every coefficient twice, phase by phase, each phase reversed.\<close>

definition tap_src :: "nat \<Rightarrow> nat \<Rightarrow> nat \<Rightarrow> nat" where
  "tap_src N S k = (S - 1 - k mod S) * N + k div S"

definition tap_table :: "(fp \<Rightarrow> fault + 'c) \<Rightarrow> nat \<Rightarrow> nat \<Rightarrow> fp list \<Rightarrow> nat \<Rightarrow> 'c list" where
  "tap_table quant N S hf n =
     concat (map (\<lambda>k. let v = projr (quant (hf ! tap_src N S k)) in [v, v]) [0..<n])"

text \<open>The real number a floating-point value denotes (0 for an infinity or NaN).\<close>

fun fp_val :: "fp \<Rightarrow> rat" where
  "fp_val (Fin x) = x"
| "fp_val a = 0"

text \<open>Inputs on which the theorems are exercised.\<close>

definition cfg_portable :: build where
  "cfg_portable = \<lparr>HAVE_NEON = False, HAVE_SSE2 = False, USE_FAST_MATH = False\<rparr>"

definition zero_junk :: "nat \<Rightarrow> 'a::len word" where
  "zero_junk k = 0"

definition cfg_neon :: build where
  "cfg_neon = \<lparr>HAVE_NEON = True, HAVE_SSE2 = False, USE_FAST_MATH = False\<rparr>"

definition g_zero :: garbage where
  "g_zero = \<lparr>g_tab = zero_junk, g_bf = Fin 0, g_y0 = (0, 0), g_y1 = (0, 0)\<rparr>"

text \<open>A designer that returns the requested number of taps, all \<open>0.25\<close>.\<close>

definition flat_designer :: designer where
  "flat_designer n fc As off = replicate (unat n) (Fin (1 / 4))"

text \<open>A sequence of pushes.\<close>

fun push_all :: "('c, 's) firpfb \<Rightarrow> 's list \<Rightarrow> fault + ('c, 's) firpfb" where
  "push_all q [] = Inr q"
| "push_all q (x # xs) = bnd (firpfb_push q x) (\<lambda>q'. push_all q' xs)"

definition sample :: "nat \<Rightarrow> cint32_t" where
  "sample k = (of_nat k, 0)"

definition fresh_bank :: firpfb_q31 where
  "fresh_bank = \<lparr>nf = 1, h = replicate 32 1073741824, h_len = 16, h_sub_len = 16,
                  window = replicate WINDOW_SIZE (0, 0), idx = 15\<rparr>"

text \<open>The numbers a format represents: an integer significand of at most \<open>prec\<close> bits times a power
  of two no smaller than the format's least quantum.\<close>

definition is_fp :: "fp_format \<Rightarrow> rat \<Rightarrow> bool" where
  "is_fp fmt x \<longleftrightarrow>
     (\<exists>m e. x = of_int m * pow2 e \<and> \<bar>m\<bar> < 2 ^ prec fmt \<and> emin fmt - int (prec fmt) + 1 \<le> e)"

text \<open>A designer that returns the requested number of taps, all \<open>0.25\<close> but a last \<open>0\<close>, and the
  resampler \<^verbatim>\<open>resamp_q15_create(8, 0.25f, 60.0f, 2)\<close> builds from it.\<close>

definition trim_designer :: designer where
  "trim_designer n fc As off = replicate (unat n - 1) (Fin (1 / 4)) @ [Fin 0]"

definition demo_bank :: firpfb_q31 where
  "demo_bank = \<lparr>nf = 2, h = replicate 64 134217728, h_len = 32, h_sub_len = 16,
                 window = replicate WINDOW_SIZE (0, 0), idx = 15\<rparr>"

definition demo_resamp :: resamp_q15 where
  "demo_resamp = \<lparr>rate = Fin 1, del = Fin 1, tau = Fin 0, bf = Fin 0, b = 0, mu = Fin 0,
                   y0 = (0, 0), y1 = (0, 0), npfb = 2, pfb = demo_bank, state = RESAMP_STATE_INTERP\<rparr>"

text \<open>The bank of that resampler after the samples \<open>(1, 0)\<close> and \<open>(2, 0)\<close>, and states the resampler
  passes through at the rates 2 and \<open>4/3\<close>.\<close>

definition demo_pushed :: firpfb_q31 where
  "demo_pushed = demo_bank\<lparr>window := (replicate WINDOW_SIZE (0, 0))[15 := (65536, 0)], idx := 16\<rparr>"

definition demo_pushed2 :: firpfb_q31 where
  "demo_pushed2 = demo_bank\<lparr>window := (replicate WINDOW_SIZE (0, 0))[15 := (65536, 0), 16 := (131072, 0)],
                             idx := 17\<rparr>"

definition demo_last :: resamp_q15 where
  "demo_last = \<lparr>rate = Fin 2, del = Fin (1 / 2), tau = Fin (1 / 2), bf = Fin 1, b = 1, mu = Fin 0,
                 y0 = (4096, 0), y1 = (4096, 0), npfb = 2, pfb = demo_pushed,
                 state = RESAMP_STATE_INTERP\<rparr>"

definition demo_boundary :: resamp_q15 where
  "demo_boundary = \<lparr>rate = Fin 2, del = Fin (1 / 2), tau = Fin (- (1 / 2)), bf = Fin (- 1), b = 0,
                     mu = Fin 0, y0 = (4096, 0), y1 = (4096, 0), npfb = 2, pfb = demo_pushed,
                     state = RESAMP_STATE_BOUNDARY\<rparr>"

definition demo_mid :: resamp_q15 where
  "demo_mid = \<lparr>rate = Fin (11184811 / 8388608), del = Fin (3 / 4), tau = Fin (3 / 4), bf = Fin (3 / 2),
                b = 1, mu = Fin (1 / 2), y0 = (4096, 0), y1 = (4096, 0), npfb = 2, pfb = demo_pushed,
                state = RESAMP_STATE_INTERP\<rparr>"

text \<open>
  States the resampler passes through at the rate \<open>4/3\<close> (waiting at the boundary with
  \<open>mu = 1/2\<close>), at the rate 4 (after the first call) and at the rate 2 (after the first and
  the second call).
\<close>

definition demo_wait :: resamp_q15 where
  "demo_wait = \<lparr>rate = Fin (11184811 / 8388608), del = Fin (3 / 4), tau = Fin (- (1 / 4)),
                 bf = Fin (- (1 / 2)), b = 0, mu = Fin (1 / 2), y0 = (4096, 0), y1 = (4096, 0),
                 npfb = 2, pfb = demo_pushed, state = RESAMP_STATE_BOUNDARY\<rparr>"

definition demo_hasty :: resamp_q15 where
  "demo_hasty = \<lparr>rate = Fin 4, del = Fin (1 / 4), tau = Fin (- (1 / 2)), bf = Fin (- 1), b = 0,
                  mu = Fin 0, y0 = (4096, 0), y1 = (4096, 0), npfb = 2, pfb = demo_pushed,
                  state = RESAMP_STATE_BOUNDARY\<rparr>"

definition demo_fast :: resamp_q15 where
  "demo_fast = demo_resamp\<lparr>rate := Fin 2, del := Fin (1 / 2)\<rparr>"

definition demo_boundary2 :: resamp_q15 where
  "demo_boundary2 = demo_boundary\<lparr>pfb := demo_pushed2, y0 := (12288, 0), y1 := (12288, 0)\<rparr>"

text \<open>
  The state after one call at the rate \<open>0.8f\<close>, and the state the loop then stays in at the
  rate \<open>2\<^sup>2\<^sup>6\<close>.
\<close>

definition demo_quarter :: resamp_q15 where
  "demo_quarter = \<lparr>rate = Fin (13421773 / 16777216), del = Fin (5 / 4), tau = Fin (1 / 4),
                    bf = Fin (1 / 2), b = 0, mu = Fin (1 / 2), y0 = (4096, 0), y1 = (4096, 0),
                    npfb = 2, pfb = demo_pushed, state = RESAMP_STATE_INTERP\<rparr>"

definition demo_stuck :: resamp_q15 where
  "demo_stuck = \<lparr>rate = Fin 67108864, del = Fin (1 / 67108864), tau = Fin (1 / 4),
                  bf = Fin (1 / 2), b = 0, mu = Fin (1 / 2), y0 = (12288, 0), y1 = (12288, 0),
                  npfb = 2, pfb = demo_pushed2, state = RESAMP_STATE_INTERP\<rparr>"

text \<open>
  The states at the rate \<open>2\<^sup>-\<^sup>2\<^sup>5\<close> when every input sample is \<open>(0, 0)\<close>: the window stays
  zero, only the write index \<open>i\<close> of the bank, \<open>tau\<close>, \<open>bf\<close> and \<open>b\<close> change.  \<open>next_idx\<close> is
  the write index after one more push.
\<close>

definition crawl :: "32 word \<Rightarrow> rat \<Rightarrow> rat \<Rightarrow> 32 word \<Rightarrow> resamp_q15" where
  "crawl i t c B = \<lparr>rate = Fin (1 / 33554432), del = Fin 33554432, tau = Fin t, bf = Fin c, b = B,
                    mu = Fin 0, y0 = (0, 0), y1 = (0, 0), npfb = 2, pfb = demo_bank\<lparr>idx := i\<rparr>,
                    state = RESAMP_STATE_INTERP\<rparr>"

definition next_idx :: "32 word \<Rightarrow> 32 word" where
  "next_idx i = (if i = 2048 then 16 else i + 1)"

section \<open>Timing on a dyadic grid\<close>

text \<open>
  \<open>timed k D T q\<close>: between two calls, the timing step \<^verbatim>\<open>del\<close> is \<open>D / 2\<^sup>k\<close> and the timing
  phase \<^verbatim>\<open>tau\<close> is \<open>T / 2\<^sup>k\<close>; the step is at least \<open>1 / npfb\<close>; the numbers are small enough
  for the single-precision operations of the timing update to be exact; and \<^verbatim>\<open>b\<close> is the
  phase index \<open>\<lfloor>tau * npfb\<rfloor>\<close> in state \<open>INTERP\<close>, or 0 with \<open>- 1 / npfb \<le> tau < 0\<close> in state
  \<open>BOUNDARY\<close>.  \<open>loop_timed\<close> is the same at the head of the loop of
  \<^verbatim>\<open>resamp_q15_execute\<close>, where state \<open>BOUNDARY\<close> may also have just been entered
  (\<open>b = npfb\<close>).
\<close>

definition timed :: "nat \<Rightarrow> int \<Rightarrow> int \<Rightarrow> resamp_q15 \<Rightarrow> bool" where
  "timed k D T q \<longleftrightarrow>
     del q = Fin (of_int D / 2 ^ k) \<and> tau q = Fin (of_int T / 2 ^ k)
     \<and> 0 < D \<and> 2 ^ k \<le> D * uint (npfb q)
     \<and> (2 ^ k + D) * uint (npfb q) < 2 ^ 24 \<and> T * uint (npfb q) < 2 ^ 24
     \<and> (if state q = RESAMP_STATE_INTERP
        then 0 \<le> T \<and> uint (b q) = T * uint (npfb q) div 2 ^ k
        else b q = 0 \<and> - (2 ^ k) \<le> T * uint (npfb q) \<and> T < 0)"

definition loop_timed :: "nat \<Rightarrow> int \<Rightarrow> int \<Rightarrow> resamp_q15 \<Rightarrow> bool" where
  "loop_timed k D T q \<longleftrightarrow>
     del q = Fin (of_int D / 2 ^ k) \<and> tau q = Fin (of_int T / 2 ^ k)
     \<and> 0 < D \<and> 2 ^ k \<le> D * uint (npfb q)
     \<and> (2 ^ k + D) * uint (npfb q) < 2 ^ 24 \<and> T * uint (npfb q) < 2 ^ 24
     \<and> (if state q = RESAMP_STATE_INTERP
        then 0 \<le> T \<and> uint (b q) = T * uint (npfb q) div 2 ^ k
        else (b q = 0 \<and> - (2 ^ k) \<le> T * uint (npfb q) \<and> T < 0)
           \<or> (b q = npfb q \<and> (uint (npfb q) - 1) * 2 ^ k \<le> T * uint (npfb q)
               \<and> T * uint (npfb q) < uint (npfb q) * 2 ^ k))"

text \<open>The number of \<open>j \<ge> 0\<close> with \<open>T + j * D < 2\<^sup>k\<close>: the outputs still due before \<open>tau\<close> reaches 1.\<close>

definition outs :: "nat \<Rightarrow> int \<Rightarrow> int \<Rightarrow> int" where
  "outs k D T = (if T < 2 ^ k then (2 ^ k - 1 - T) div D + 1 else 0)"

text \<open>A computation that does not end in the fault \<open>e\<close>; the two faults of the loop and the buffer.\<close>

definition avoids :: "fault \<Rightarrow> fault + 'a \<Rightarrow> bool" where
  "avoids e m \<longleftrightarrow> m \<noteq> Inl e"

definition loop_fault :: "fault \<Rightarrow> bool" where
  "loop_fault e \<longleftrightarrow> e = Out_Of_Fuel \<or> e = Buffer_Overflow"

text \<open>
  The caller's loop: one call of \<^verbatim>\<open>resamp_q15_execute\<close> for each input sample, each with a
  buffer of \<open>len\<close> entries.  The result is the last state and the number of outputs of all
  the calls.
\<close>

fun resamp_run ::
  "build \<Rightarrow> nat \<Rightarrow> nat \<Rightarrow> resamp_q15 \<Rightarrow> cint16_t list \<Rightarrow> fault + (resamp_q15 \<times> nat)" where
  "resamp_run cfg fuel len q [] = Inr (q, 0)"
| "resamp_run cfg fuel len q (x # xs) =
     bnd (resamp_q15_execute cfg fuel q x (replicate len (Fin 0, Fin 0))) (\<lambda>(q1, y1, n).
     bnd (resamp_run cfg fuel len q1 xs) (\<lambda>(q2, c). Inr (q2, unat n + c)))"

section \<open>Loops, indices and evaluation\<close>

lemma bnd_Inl [simp]: "bnd (Inl e) f = Inl e"
  by (simp add: bnd_def)

lemma bnd_Inr [simp]: "bnd (Inr x) f = f x"
  by (simp add: bnd_def)

lemma bnd_eq_Inr: "bnd m f = Inr r \<longleftrightarrow> (\<exists>x. m = Inr x \<and> f x = Inr r)"
  by (cases m) auto

lemma forM_append: "forM (xs @ ys) f s = bnd (forM xs f s) (forM ys f)"
  by (induction xs arbitrary: s) (auto split: sum.splits)

lemma forM_single: "forM [k] f = f k"
  by (rule ext) (simp split: sum.splits)

lemma forM_upt_Suc: "forM [0..<Suc n] f s = bnd (forM [0..<n] f s) (f n)"
  by (simp add: forM_append forM_single)

lemma unat_lt32: "unat (w :: 32 word) < 4294967296"
  using unsigned_less [of w, where 'a = nat] by simp

lemma unat_of_nat32: "n < 2 ^ 32 \<Longrightarrow> unat (of_nat n :: 32 word) = n"
  by (simp add: unat_of_nat)

lemma forM_upt_inv:
  assumes "I 0 s"
    and "\<And>k t. k < n \<Longrightarrow> I k t \<Longrightarrow> \<exists>t'. f k t = Inr t' \<and> I (Suc k) t'"
  shows "\<exists>t. forM [0..<n] f s = Inr t \<and> I n t"
  using assms(2)
proof (induction n)
  case 0
  then show ?case using assms(1) by simp
next
  case (Suc n)
  then obtain t where t: "forM [0..<n] f s = Inr t" "I n t"
    by (meson less_Suc_eq)
  from Suc.prems [of n t] t obtain t' where "f n t = Inr t'" "I (Suc n) t'"
    by auto
  with t show ?case
    by (simp add: forM_upt_Suc del: upt_Suc)
qed

lemma length_tap_table [simp]: "length (tap_table quant N S hf n) = 2 * n"
  by (induction n) (simp_all add: tap_table_def Let_def)

lemma tap_table_Suc:
  "tap_table quant N S hf (Suc n) =
     tap_table quant N S hf n @ [projr (quant (hf ! tap_src N S n)), projr (quant (hf ! tap_src N S n))]"
  by (simp add: tap_table_def Let_def)

lemma word_idx_src:
  fixes n_f sub_len :: "32 word"
  assumes "i < unat n_f" "j < unat sub_len" "unat n_f * unat sub_len < 2 ^ 32"
  shows "unat ((sub_len - 1 - of_nat j) * n_f + of_nat i) = (unat sub_len - 1 - j) * unat n_f + i"
proof -
  let ?N = "unat n_f" and ?S = "unat sub_len"
  have "(?S - 1 - j) * ?N + i < (?S - 1 - j) * ?N + ?N" using assms(1) by simp
  also have "\<dots> = (Suc (?S - 1 - j)) * ?N" by simp
  also have "\<dots> \<le> ?S * ?N" using assms(2) by (intro mult_le_mono1) simp
  finally have bound: "(?S - 1 - j) * ?N + i < 2 ^ 32"
    using assms(3) by (simp add: mult.commute)
  have "of_nat (?S - 1 - j) = (sub_len - 1 - of_nat j :: 32 word)"
    using assms(2) by (simp add: of_nat_diff)
  then have "(sub_len - 1 - of_nat j) * n_f + of_nat i = (of_nat ((?S - 1 - j) * ?N + i) :: 32 word)"
    by simp
  then show ?thesis
    using bound by (simp only: unat_of_nat32)
qed

lemma word_idx_dst:
  fixes sub_len :: "32 word"
  assumes "2 * (i * unat sub_len + j) + 1 < 2 ^ 32"
  shows "unat ((of_nat i * sub_len + of_nat j) * 2) = 2 * (i * unat sub_len + j)"
    and "unat ((of_nat i * sub_len + of_nat j) * 2 + 1) = 2 * (i * unat sub_len + j) + 1"
proof -
  have e: "(of_nat i * sub_len + of_nat j) * 2 = (of_nat (2 * (i * unat sub_len + j)) :: 32 word)"
    by simp
  show "unat ((of_nat i * sub_len + of_nat j) * 2) = 2 * (i * unat sub_len + j)"
    unfolding e using assms by (intro unat_of_nat32) simp
  have e1: "(of_nat i * sub_len + of_nat j) * 2 + 1 = (of_nat (2 * (i * unat sub_len + j) + 1) :: 32 word)"
    by simp
  show "unat ((of_nat i * sub_len + of_nat j) * 2 + 1) = 2 * (i * unat sub_len + j) + 1"
    unfolding e1 using assms by (intro unat_of_nat32) simp
qed

lemma fill_step:
  assumes t: "t = tap_table quant N S hf k @ drop (2 * k) t0" and len: "length t0 = 2 * n" and k: "k < n"
  shows "t[2 * k := v, 2 * k + 1 := v] = (tap_table quant N S hf k @ [v, v]) @ drop (2 * Suc k) t0"
proof -
  have d: "drop (2 * k) t0 = t0 ! (2 * k) # t0 ! (2 * k + 1) # drop (2 * Suc k) t0"
    using len k by (simp add: Cons_nth_drop_Suc)
  show ?thesis
    unfolding t d by (simp add: list_update_append)
qed

lemma fill_taps_ok:
  fixes n_f sub_len :: "32 word"
  assumes len: "length t0 = 2 * (unat n_f * unat sub_len)"
    and nowrap: "2 * (unat n_f * unat sub_len) < 2 ^ 32"
    and hf: "unat n_f * unat sub_len \<le> length hf"
    and q: "\<And>k. k < unat n_f * unat sub_len \<Longrightarrow> \<exists>v. quant (hf ! k) = Inr v"
  shows "fill_taps quant n_f sub_len hf t0 =
           Inr (tap_table quant (unat n_f) (unat sub_len) hf (unat n_f * unat sub_len))"
proof -
  let ?N = "unat n_f" and ?S = "unat sub_len"
  let ?T = "tap_table quant ?N ?S hf"
  let ?body = "\<lambda>i j t.
         bnd (rd hf (unat ((sub_len - 1 - of_nat j) * n_f + of_nat i))) (\<lambda>c0.
         bnd (quant c0) (\<lambda>v0.
         bnd (wr t (unat ((of_nat i * sub_len + of_nat j) * 2)) v0) (\<lambda>t1.
         bnd (rd hf (unat ((sub_len - 1 - of_nat j) * n_f + of_nat i))) (\<lambda>c1.
         bnd (quant c1) (\<lambda>v1.
         wr t1 (unat ((of_nat i * sub_len + of_nat j) * 2 + 1)) v1)))))"
  have step: "\<exists>t'. ?body i j t = Inr t' \<and> t' = ?T (Suc (i * ?S + j)) @ drop (2 * Suc (i * ?S + j)) t0"
    if i: "i < ?N" and j: "j < ?S" and t: "t = ?T (i * ?S + j) @ drop (2 * (i * ?S + j)) t0" for i j t
  proof -
    let ?k = "i * ?S + j"
    have "?k < i * ?S + ?S" using j by simp
    also have "\<dots> = Suc i * ?S" by simp
    also have "\<dots> \<le> ?N * ?S" using i by (intro mult_le_mono1) simp
    finally have k: "?k < ?N * ?S" .
    have src: "unat ((sub_len - 1 - of_nat j) * n_f + of_nat i) = tap_src ?N ?S ?k"
      using word_idx_src [OF i j] nowrap j by (simp add: tap_src_def)
    have srcb: "tap_src ?N ?S ?k < ?N * ?S"
    proof -
      have "(?S - 1 - j) * ?N + i < (?S - 1 - j) * ?N + ?N" using i by simp
      also have "\<dots> = (Suc (?S - 1 - j)) * ?N" by simp
      also have "\<dots> \<le> ?S * ?N" using j by (intro mult_le_mono1) simp
      finally show ?thesis using j by (simp add: tap_src_def mult.commute)
    qed
    obtain v where v: "quant (hf ! tap_src ?N ?S ?k) = Inr v"
      using q [OF srcb] by blast
    have dst: "unat ((of_nat i * sub_len + of_nat j) * 2) = 2 * ?k"
      "unat ((of_nat i * sub_len + of_nat j) * 2 + 1) = 2 * ?k + 1"
      using word_idx_dst [of i sub_len j] k nowrap by simp_all
    have lt: "length t = 2 * (?N * ?S)"
      using t len k by simp
    have "?body i j t = Inr (t[2 * ?k := v, 2 * ?k + 1 := v])"
      unfolding src dst using srcb hf v k lt by (simp add: rd_def wr_def)
    moreover have "t[2 * ?k := v, 2 * ?k + 1 := v] = ?T (Suc ?k) @ drop (2 * Suc ?k) t0"
      using fill_step [OF t len k, of v] v by (simp add: tap_table_Suc)
    ultimately show ?thesis by simp
  qed
  have inner: "\<exists>t'. forM [0..<?S] (?body i) t = Inr t' \<and> t' = ?T (Suc i * ?S) @ drop (2 * (Suc i * ?S)) t0"
    if i: "i < ?N" and t: "t = ?T (i * ?S) @ drop (2 * (i * ?S)) t0" for i t
  proof -
    have "\<exists>t'. forM [0..<?S] (?body i) t = Inr t' \<and> t' = ?T (i * ?S + ?S) @ drop (2 * (i * ?S + ?S)) t0"
      by (rule forM_upt_inv [where I = "\<lambda>j t'. t' = ?T (i * ?S + j) @ drop (2 * (i * ?S + j)) t0"])
         (use t step [OF i] in auto)
    then show ?thesis by (simp add: add.commute)
  qed
  have "\<exists>t'. forM [0..<?N] (\<lambda>i. forM [0..<?S] (?body i)) t0 = Inr t' \<and> t' = ?T (?N * ?S) @ drop (2 * (?N * ?S)) t0"
    by (rule forM_upt_inv [where I = "\<lambda>i t'. t' = ?T (i * ?S) @ drop (2 * (i * ?S)) t0"])
       (use inner in \<open>auto simp: tap_table_def\<close>)
  then show ?thesis
    using len by (simp add: fill_taps_def)
qed

lemma floor_rat_numeral [simp]: "\<lfloor>numeral u / numeral v :: rat\<rfloor> = numeral u div numeral v"
  by (metis floor_divide_of_int_eq of_int_numeral)

lemma floor_rat_neg_numeral [simp]: "\<lfloor>- (numeral u / numeral v) :: rat\<rfloor> = - numeral u div numeral v"
  by (metis floor_divide_of_int_eq of_int_numeral of_int_minus minus_divide_left)

lemma ceiling_rat_numeral [simp]: "\<lceil>numeral u / numeral v :: rat\<rceil> = - (- numeral u div numeral v)"
  by (simp add: ceiling_def)

lemma ceiling_rat_neg_numeral [simp]: "\<lceil>- (numeral u / numeral v) :: rat\<rceil> = - (numeral u div numeral v)"
  by (simp add: ceiling_def)

lemmas fp_eval =
  fp_of_rat_def fp_round_def fp_quantum_def fp_max_def binary32_def binary64_def ilog2_def
  bitlen.simps pow2_def round_half_even_def round_half_away_def rat_trunc_def Let_def

lemma quant_q31_one: "quant_q31 (Fin 1) = Inl Undefined_Conversion"
  by (simp add: quant_q31_def fp_eval)

lemma quant_q31_half: "quant_q31 (Fin (1 / 2)) = Inr 1073741824"
  by (simp add: quant_q31_def fp_eval)

lemma quant_q15_quarter: "quant_q15 (Fin (1 / 4)) = Inr 8191"
  by (simp add: quant_q15_def fp_eval)

lemma quant_q15_mquarter: "quant_q15 (Fin (- 1 / 4)) = Inr (- 8191)"
  by (simp add: quant_q15_def fp_eval)

lemma quant_q31_3: "quant_q31 (Fin (10066330 / 33554432)) = Inr 644245120"
  by (simp add: quant_q31_def fp_eval)

lemma fill_taps_succeeds:
  fixes n_f sub_len :: "32 word"
  assumes len: "length t0 = 2 * (unat n_f * unat sub_len)"
    and nowrap: "unat n_f * unat sub_len < 2 ^ 32"
    and hf: "unat n_f * unat sub_len \<le> length hf"
    and q: "\<And>k. k < unat n_f * unat sub_len \<Longrightarrow> \<exists>v. quant (hf ! k) = Inr v"
  shows "\<exists>t. fill_taps quant n_f sub_len hf t0 = Inr t \<and> length t = length t0"
proof -
  let ?N = "unat n_f" and ?S = "unat sub_len"
  let ?body = "\<lambda>i j t.
         bnd (rd hf (unat ((sub_len - 1 - of_nat j) * n_f + of_nat i))) (\<lambda>c0.
         bnd (quant c0) (\<lambda>v0.
         bnd (wr t (unat ((of_nat i * sub_len + of_nat j) * 2)) v0) (\<lambda>t1.
         bnd (rd hf (unat ((sub_len - 1 - of_nat j) * n_f + of_nat i))) (\<lambda>c1.
         bnd (quant c1) (\<lambda>v1.
         wr t1 (unat ((of_nat i * sub_len + of_nat j) * 2 + 1)) v1)))))"
  have step: "\<exists>t'. ?body i j t = Inr t' \<and> length t' = length t0"
    if i: "i < ?N" and j: "j < ?S" and t: "length t = length t0" for i j t
  proof -
    let ?k = "i * ?S + j"
    have "?k < i * ?S + ?S" using j by simp
    also have "\<dots> = Suc i * ?S" by simp
    also have "\<dots> \<le> ?N * ?S" using i by (intro mult_le_mono1) simp
    finally have k: "?k < ?N * ?S" .
    have src: "unat ((sub_len - 1 - of_nat j) * n_f + of_nat i) = tap_src ?N ?S ?k"
      using word_idx_src [OF i j] nowrap j by (simp add: tap_src_def)
    have srcb: "tap_src ?N ?S ?k < ?N * ?S"
    proof -
      have "(?S - 1 - j) * ?N + i < (?S - 1 - j) * ?N + ?N" using i by simp
      also have "\<dots> = (Suc (?S - 1 - j)) * ?N" by simp
      also have "\<dots> \<le> ?S * ?N" using j by (intro mult_le_mono1) simp
      finally show ?thesis using j by (simp add: tap_src_def mult.commute)
    qed
    obtain v where v: "quant (hf ! tap_src ?N ?S ?k) = Inr v"
      using q [OF srcb] by blast
    have dst: "unat ((of_nat i * sub_len + of_nat j) * 2) < length t0
             \<and> unat ((of_nat i * sub_len + of_nat j) * 2 + 1) < length t0"
    proof (cases "2 * (?N * ?S) < 2 ^ 32")
      case True
      then show ?thesis
        using word_idx_dst [of i sub_len j] k len by simp
    next
      case False
      have "unat ((of_nat i * sub_len + of_nat j) * 2) < 4294967296"
           "unat ((of_nat i * sub_len + of_nat j) * 2 + 1) < 4294967296"
        by (rule unat_lt32)+
      with False len show ?thesis by simp
    qed
    show ?thesis
      unfolding src using srcb hf v dst t by (simp add: rd_def wr_def)
  qed
  have inner: "\<exists>t'. forM [0..<?S] (?body i) t = Inr t' \<and> length t' = length t0"
    if i: "i < ?N" and t: "length t = length t0" for i t
    by (rule forM_upt_inv [where I = "\<lambda>j t'. length t' = length t0"]) (use t step [OF i] in auto)
  have "\<exists>t'. forM [0..<?N] (\<lambda>i. forM [0..<?S] (?body i)) t0 = Inr t' \<and> length t' = length t0"
    by (rule forM_upt_inv [where I = "\<lambda>i t'. length t' = length t0"]) (use inner in auto)
  then show ?thesis
    by (simp add: fill_taps_def)
qed

lemma word_div_mult_eq_iff:
  fixes len n_f :: "32 word"
  assumes "n_f \<noteq> 0"
  shows "len div n_f * n_f = len \<longleftrightarrow> unat n_f dvd unat len"
proof -
  have le: "unat len div unat n_f * unat n_f \<le> unat len"
    by simp
  have u: "unat (len div n_f * n_f) = unat len div unat n_f * unat n_f"
  proof -
    have "unat len div unat n_f * unat n_f < 4294967296"
      using le unat_lt32 [of len] by linarith
    then have "unat (len div n_f) * unat n_f < 2 ^ 32"
      by (simp add: unat_div)
    then show ?thesis
      using unat_mult_lem [of "len div n_f" n_f] by (simp add: unat_div)
  qed
  show ?thesis
    by (metis u word_unat_eq_iff dvd_div_mult_self dvd_triv_right)
qed

lemma unat_NUM_TAPS: "unat (NUM_TAPS cfg) = (if USE_FAST_MATH cfg then 8 else 16)"
  by (simp add: NUM_TAPS_def)

lemma create_q31_succeeds:
  fixes n_f len :: "32 word"
  assumes "n_f \<noteq> 0" "unat n_f dvd unat len" "unat len div unat n_f = unat (NUM_TAPS cfg)"
    and "unat len \<le> length hf" "\<And>k. k < unat len \<Longrightarrow> \<exists>v. quant_q31 (hf ! k) = Inr v"
  shows "\<exists>q. firpfb_q31_create cfg junk n_f hf len = Inr q"
proof -
  have d: "len div n_f * n_f = len"
    using assms(1,2) by (simp add: word_div_mult_eq_iff)
  have s: "len div n_f = NUM_TAPS cfg"
    using assms(3) by (simp add: word_unat_eq_iff unat_div)
  have prod: "unat n_f * unat (len div n_f) = unat len"
    using assms(2) by (simp add: unat_div)
  obtain t where "fill_taps quant_q31 n_f (len div n_f) hf (map junk [0..<2 * unat len]) = Inr t"
    using fill_taps_succeeds [of "map junk [0..<2 * unat len]" n_f "len div n_f" hf quant_q31]
      assms(4,5) unat_lt32 [of len] by (auto simp: prod)
  then show ?thesis
    using assms(1) d s by (simp add: firpfb_q31_create_def Let_def)
qed

lemma create_q15_succeeds:
  fixes n_f len :: "32 word"
  assumes "n_f \<noteq> 0" "unat n_f dvd unat len" "unat len div unat n_f = 16"
    and "unat len \<le> length hf" "\<And>k. k < unat len \<Longrightarrow> \<exists>v. quant_q15 (hf ! k) = Inr v"
  shows "\<exists>q. firpfb_q15_create junk n_f hf len = Inr q"
proof -
  have d: "len div n_f * n_f = len"
    using assms(1,2) by (simp add: word_div_mult_eq_iff)
  have s: "len div n_f = 16"
    using assms(3) by (simp add: word_unat_eq_iff unat_div)
  have prod: "unat n_f * unat (len div n_f) = unat len"
    using assms(2) by (simp add: unat_div)
  obtain t where "fill_taps quant_q15 n_f (len div n_f) hf (map junk [0..<2 * unat len]) = Inr t"
    using fill_taps_succeeds [of "map junk [0..<2 * unat len]" n_f "len div n_f" hf quant_q15]
      assms(4,5) unat_lt32 [of len] by (auto simp: prod)
  then show ?thesis
    using assms(1) d s by (simp add: firpfb_q15_create_def Let_def)
qed

lemma create_q31_asserts:
  fixes n_f len :: "32 word"
  assumes "n_f \<noteq> 0" "\<not> unat n_f dvd unat len \<or> unat len div unat n_f \<noteq> unat (NUM_TAPS cfg)"
  shows "firpfb_q31_create cfg junk n_f hf len = Inl Assert_Failed"
proof (cases "unat n_f dvd unat len")
  case True
  with assms(2) have "unat (len div n_f) \<noteq> unat (NUM_TAPS cfg)"
    by (simp add: unat_div)
  then have "len div n_f \<noteq> NUM_TAPS cfg"
    by auto
  then show ?thesis
    using assms(1) by (simp add: firpfb_q31_create_def Let_def)
next
  case False
  then show ?thesis
    using assms(1) by (simp add: firpfb_q31_create_def Let_def word_div_mult_eq_iff)
qed

lemma create_q15_asserts:
  fixes n_f len :: "32 word"
  assumes "n_f \<noteq> 0" "\<not> unat n_f dvd unat len \<or> unat len div unat n_f \<noteq> 16"
  shows "firpfb_q15_create junk n_f hf len = Inl Assert_Failed"
proof (cases "unat n_f dvd unat len")
  case True
  with assms(2) have "unat (len div n_f) \<noteq> unat (16 :: 32 word)"
    by (simp add: unat_div)
  then have "len div n_f \<noteq> 16"
    by auto
  then show ?thesis
    using assms(1) by (simp add: firpfb_q15_create_def Let_def)
next
  case False
  then show ?thesis
    using assms(1) by (simp add: firpfb_q15_create_def Let_def word_div_mult_eq_iff)
qed

lemmas upt_eval = upt_rec [of 0] upt_rec [of "Suc _"] upt_rec [of "numeral _"]

lemma create_q31_result:
  fixes n_f len :: "32 word"
  assumes "n_f \<noteq> 0" "unat n_f dvd unat len" "unat len div unat n_f = unat (NUM_TAPS cfg)"
    and "unat len \<le> length hf" "\<And>k. k < unat len \<Longrightarrow> \<exists>v. quant_q31 (hf ! k) = Inr v"
    and "2 * unat len < 2 ^ 32"
  shows "firpfb_q31_create cfg junk n_f hf len =
           Inr \<lparr>nf = n_f, h = tap_table quant_q31 (unat n_f) (unat (NUM_TAPS cfg)) hf (unat len),
                h_len = len, h_sub_len = NUM_TAPS cfg,
                window = replicate WINDOW_SIZE (0, 0), idx = NUM_TAPS cfg - 1\<rparr>"
proof -
  have d: "len div n_f * n_f = len"
    using assms(1,2) by (simp add: word_div_mult_eq_iff)
  have s: "len div n_f = NUM_TAPS cfg"
    using assms(3) by (simp add: word_unat_eq_iff unat_div)
  have prod: "unat n_f * unat (NUM_TAPS cfg) = unat len"
    using assms(2,3) by (metis dvd_mult_div_cancel)
  have "fill_taps quant_q31 n_f (NUM_TAPS cfg) hf (map junk [0..<2 * unat len]) =
          Inr (tap_table quant_q31 (unat n_f) (unat (NUM_TAPS cfg)) hf (unat len))"
    using fill_taps_ok [of "map junk [0..<2 * unat len]" n_f "NUM_TAPS cfg" hf quant_q31]
      assms(4,5,6) by (simp add: prod)
  then show ?thesis
    using assms(1) d s by (simp add: firpfb_q31_create_def Let_def)
qed

lemma create_q15_result:
  fixes n_f len :: "32 word"
  assumes "n_f \<noteq> 0" "unat n_f dvd unat len" "unat len div unat n_f = 16"
    and "unat len \<le> length hf" "\<And>k. k < unat len \<Longrightarrow> \<exists>v. quant_q15 (hf ! k) = Inr v"
    and "2 * unat len < 2 ^ 32"
  shows "firpfb_q15_create junk n_f hf len =
           Inr \<lparr>nf = n_f, h = tap_table quant_q15 (unat n_f) 16 hf (unat len),
                h_len = len, h_sub_len = 16,
                window = replicate WINDOW_SIZE (0, 0), idx = 15\<rparr>"
proof -
  have d: "len div n_f * n_f = len"
    using assms(1,2) by (simp add: word_div_mult_eq_iff)
  have s: "len div n_f = 16"
    using assms(3) by (simp add: word_unat_eq_iff unat_div)
  have prod: "unat n_f * 16 = unat len"
    using assms(2,3) by (metis dvd_mult_div_cancel)
  have "fill_taps quant_q15 n_f 16 hf (map junk [0..<2 * unat len]) =
          Inr (tap_table quant_q15 (unat n_f) 16 hf (unat len))"
    using fill_taps_ok [of "map junk [0..<2 * unat len]" n_f 16 hf quant_q15]
      assms(4,5,6) prod by simp
  then show ?thesis
    using assms(1) d s by (simp add: firpfb_q15_create_def Let_def)
qed

lemma tap_table_const:
  assumes "\<And>k. k < n \<Longrightarrow> quant (hf ! tap_src N S k) = Inr v"
  shows "tap_table quant N S hf n = replicate (2 * n) v"
  using assms
proof (induction n)
  case 0
  then show ?case by (simp add: tap_table_def)
next
  case (Suc n)
  then show ?case
    by (simp add: tap_table_Suc replicate_app_Cons_same)
qed

lemma tap_src_less: "k < N * S \<Longrightarrow> tap_src N S k < N * S"
proof -
  assume k: "k < N * S"
  then have S: "0 < S" by (cases S) auto
  have kd: "k div S < N"
    using k by (simp add: less_mult_imp_div_less mult.commute)
  have "(S - 1 - k mod S) * N + k div S < (S - 1 - k mod S) * N + N"
    using kd by simp
  also have "\<dots> = Suc (S - 1 - k mod S) * N" by simp
  also have "\<dots> \<le> S * N"
    using S by (intro mult_le_mono1) simp
  finally show ?thesis
    by (simp add: tap_src_def mult.commute)
qed

lemma fresh_bank_created:
  "firpfb_q31_create cfg_portable zero_junk 1 (replicate 16 (Fin (1 / 2))) 16 = Inr fresh_bank"
proof -
  have t: "tap_table quant_q31 (Suc 0) 16 (replicate 16 (Fin (1 / 2))) 16 = replicate 32 1073741824"
    using tap_table_const [of 16 quant_q31 "replicate 16 (Fin (1 / 2))" "Suc 0" 16 1073741824]
      tap_src_less [of _ "Suc 0" 16] by (simp add: quant_q31_half)
  show ?thesis
    using create_q31_result [of 1 16 cfg_portable "replicate 16 (Fin (1 / 2))" zero_junk]
    by (simp add: unat_NUM_TAPS cfg_portable_def quant_q31_half t fresh_bank_def NUM_TAPS_def)
qed

lemma firpfb_push_direct:
  assumes "unat (idx q) < WINDOW_SIZE" "length (window q) = WINDOW_SIZE"
  shows "firpfb_push q x = Inr (q\<lparr>window := (window q)[unat (idx q) := x], idx := idx q + 1\<rparr>)"
proof -
  have "idx q \<noteq> of_nat WINDOW_SIZE"
    using assms(1) by (auto simp: WINDOW_SIZE_def)
  then show ?thesis
    using assms by (simp add: firpfb_push_def wr_def)
qed

lemma push_all_direct:
  assumes "unat (idx q) + length xs \<le> WINDOW_SIZE" "length (window q) = WINDOW_SIZE"
  shows "push_all q xs =
           Inr (q\<lparr>window := take (unat (idx q)) (window q) @ xs @ drop (unat (idx q) + length xs) (window q),
                  idx := idx q + of_nat (length xs)\<rparr>)"
  using assms
proof (induction xs arbitrary: q)
  case Nil
  then show ?case by simp
next
  case (Cons x xs)
  let ?q = "q\<lparr>window := (window q)[unat (idx q) := x], idx := idx q + 1\<rparr>"
  have lt: "unat (idx q) < WINDOW_SIZE"
    using Cons.prems by simp
  have u: "unat (idx q + 1) = Suc (unat (idx q))"
    using lt unat_add_lem [of "idx q" 1] by (simp add: WINDOW_SIZE_def)
  have p: "firpfb_push q x = Inr ?q"
    using firpfb_push_direct [OF lt Cons.prems(2)] .
  have "push_all ?q xs =
          Inr (?q\<lparr>window := take (unat (idx ?q)) (window ?q) @ xs @ drop (unat (idx ?q) + length xs) (window ?q),
                  idx := idx ?q + of_nat (length xs)\<rparr>)"
    using Cons.prems by (intro Cons.IH) (simp_all add: u)
  moreover have "take (Suc (unat (idx q))) ((window q)[unat (idx q) := x]) = take (unat (idx q)) (window q) @ [x]"
    using lt Cons.prems(2) by (simp add: take_Suc_conv_app_nth)
  ultimately show ?case
    using p by (simp add: u)
qed

lemma forM_cong:
  assumes "\<And>k s. k \<in> set ks \<Longrightarrow> f k s = g k s"
  shows "forM ks f s = forM ks g s"
  using assms by (induction ks arbitrary: s) (auto split: sum.splits)

text \<open>What the compaction loop leaves, for a bank whose index has reached the capacity.\<close>

lemma compact_loop:
  fixes w :: "'s list"
  assumes "length w = WINDOW_SIZE" "S \<le> 1024" "0 < S"
  shows "forM [0..<S - 1] (\<lambda>i w'. bnd (rd w' (WINDOW_SIZE - S + i)) (\<lambda>v. wr w' i v)) w =
           Inr (take (S - 1) (drop (WINDOW_SIZE - S) w) @ drop (S - 1) w)"
proof -
  let ?f = "\<lambda>i w'. bnd (rd w' (WINDOW_SIZE - S + i)) (\<lambda>v. wr w' i v)"
  have "\<exists>t. forM [0..<S - 1] ?f w = Inr t \<and> t = take (S - 1) (drop (WINDOW_SIZE - S) w) @ drop (S - 1) w"
  proof (rule forM_upt_inv [where I = "\<lambda>k t. t = take k (drop (WINDOW_SIZE - S) w) @ drop k w"])
    show "w = take 0 (drop (WINDOW_SIZE - S) w) @ drop 0 w" by simp
  next
    fix k t
    assume k: "k < S - 1" and t: "t = take k (drop (WINDOW_SIZE - S) w) @ drop k w"
    have lt: "length t = WINDOW_SIZE"
      using t assms k by (simp add: WINDOW_SIZE_def)
    have "t ! (WINDOW_SIZE - S + k) = drop k w ! (WINDOW_SIZE - S)"
      using t assms k by (simp add: nth_append WINDOW_SIZE_def)
    also have "\<dots> = w ! (k + (WINDOW_SIZE - S))"
      using assms k by (intro nth_drop) (simp add: WINDOW_SIZE_def)
    finally have r: "t ! (WINDOW_SIZE - S + k) = w ! (WINDOW_SIZE - S + k)"
      by (simp add: add.commute)
    have "t[k := w ! (WINDOW_SIZE - S + k)] = take (Suc k) (drop (WINDOW_SIZE - S) w) @ drop (Suc k) w"
    proof -
      have "drop k w = w ! k # drop (Suc k) w"
        using assms k by (simp add: Cons_nth_drop_Suc WINDOW_SIZE_def)
      moreover have "take (Suc k) (drop (WINDOW_SIZE - S) w) = take k (drop (WINDOW_SIZE - S) w) @ [w ! (WINDOW_SIZE - S + k)]"
        using assms k by (simp add: take_Suc_conv_app_nth WINDOW_SIZE_def)
      moreover have "length (take k (drop (WINDOW_SIZE - S) w)) = k"
        using assms k by (simp add: WINDOW_SIZE_def)
      ultimately show ?thesis
        unfolding t by (simp add: list_update_append)
    qed
    then show "\<exists>t'. ?f k t = Inr t' \<and> t' = take (Suc k) (drop (WINDOW_SIZE - S) w) @ drop (Suc k) w"
      using lt r k assms by (auto simp: rd_def wr_def WINDOW_SIZE_def)
  qed
  then show ?thesis by simp
qed

lemma firpfb_push_compact:
  assumes i: "idx q = of_nat WINDOW_SIZE" and l: "length (window q) = WINDOW_SIZE"
    and s: "h_sub_len q \<noteq> 0" "unat (h_sub_len q) \<le> 1024"
  shows "firpfb_push q x =
           Inr (q\<lparr>window := (take (unat (h_sub_len q) - 1) (drop (WINDOW_SIZE - unat (h_sub_len q)) (window q))
                             @ drop (unat (h_sub_len q) - 1) (window q))[unat (h_sub_len q) - 1 := x],
                  idx := h_sub_len q\<rparr>)"
proof -
  let ?S = "unat (h_sub_len q)"
  let ?W = "take (?S - 1) (drop (WINDOW_SIZE - ?S) (window q)) @ drop (?S - 1) (window q)"
  have S0: "0 < ?S"
    using s(1) by (simp add: unat_gt_0)
  have u1: "unat (h_sub_len q - 1) = ?S - 1"
    using s(1) by (simp add: unat_minus_one)
  have src: "unat (idx q - h_sub_len q + of_nat k) = WINDOW_SIZE - ?S + k" if "k < ?S - 1" for k
  proof -
    have "idx q - h_sub_len q + of_nat k = (of_nat (WINDOW_SIZE - ?S + k) :: 32 word)"
      using s(2) by (simp add: i WINDOW_SIZE_def of_nat_diff)
    moreover have "WINDOW_SIZE - ?S + k < 2 ^ 32"
      using that s(2) by (simp add: WINDOW_SIZE_def)
    ultimately show ?thesis
      by (simp only: unat_of_nat32)
  qed
  have "forM [0..<unat (h_sub_len q - 1)] (\<lambda>k w. bnd (rd w (unat (idx q - h_sub_len q + of_nat k))) (\<lambda>v. wr w k v)) (window q)
      = forM [0..<?S - 1] (\<lambda>k w. bnd (rd w (WINDOW_SIZE - ?S + k)) (\<lambda>v. wr w k v)) (window q)"
    unfolding u1 by (rule forM_cong) (simp add: src)
  also have "\<dots> = Inr ?W"
    using compact_loop [OF l s(2) S0] .
  finally have loop: "forM [0..<unat (h_sub_len q - 1)]
      (\<lambda>k w. bnd (rd w (unat (idx q - h_sub_len q + of_nat k))) (\<lambda>v. wr w k v)) (window q) = Inr ?W" .
  define W where "W = ?W"
  have len: "?S - 1 < length W"
    unfolding W_def using l s(2) S0 by (simp add: WINDOW_SIZE_def)
  have "firpfb_push q x =
      bnd (Inr (q\<lparr>window := W, idx := h_sub_len q - 1\<rparr>)) (\<lambda>q1.
      bnd (wr (window q1) (unat (idx q1)) x) (\<lambda>w. Inr (q1\<lparr>window := w, idx := idx q1 + 1\<rparr>)))"
    unfolding firpfb_push_def loop W_def using i by simp
  also have "\<dots> = Inr (q\<lparr>window := W[?S - 1 := x], idx := h_sub_len q\<rparr>)"
    using len by (simp add: u1 wr_def)
  finally show ?thesis
    unfolding W_def .
qed

lemma q15_created:
  "firpfb_q15_create zero_junk 1 (replicate 16 (Fin (1 / 4))) 16 =
     Inr \<lparr>nf = 1, h = replicate 32 8191, h_len = 16, h_sub_len = 16,
          window = replicate WINDOW_SIZE (0, 0), idx = 15\<rparr>"
proof -
  have t: "tap_table quant_q15 (Suc 0) 16 (replicate 16 (Fin (1 / 4))) 16 = replicate 32 8191"
    using tap_table_const [of 16 quant_q15 "replicate 16 (Fin (1 / 4))" "Suc 0" 16 8191]
      tap_src_less [of _ "Suc 0" 16] by (simp add: quant_q15_quarter)
  show ?thesis
    using create_q15_result [of 1 16 "replicate 16 (Fin (1 / 4))" zero_junk]
    by (simp add: quant_q15_quarter t)
qed

section \<open>Floating-point values that are exact\<close>

lemma is_fpI:
  "x = of_int m * pow2 e \<Longrightarrow> \<bar>m\<bar> < 2 ^ prec fmt \<Longrightarrow> emin fmt - int (prec fmt) + 1 \<le> e
   \<Longrightarrow> is_fp fmt x"
  by (auto simp: is_fp_def)

lemma pow2_powi: "pow2 e = 2 powi e"
  by (simp add: pow2_def power_int_def inverse_eq_divide power_one_over)

lemma pow2_pos [simp]: "0 < pow2 e"
  by (simp add: pow2_powi)

lemma pow2_nonzero [simp]: "pow2 e \<noteq> 0"
  by (simp add: pow2_powi)

lemma pow2_nonneg [simp]: "0 \<le> pow2 e"
  using pow2_pos [of e] by (simp only: less_imp_le)

lemma abs_pow2 [simp]: "\<bar>pow2 e\<bar> = pow2 e"
  by simp

lemma pow2_not_le_0 [simp]: "\<not> pow2 e \<le> 0"
  using pow2_pos [of e] by (simp only: not_le)

lemma pow2_add: "pow2 (d + e) = pow2 d * pow2 e"
  by (simp add: pow2_powi power_int_add)

lemma pow2_diff: "pow2 (d - e) = pow2 d / pow2 e"
  by (simp add: pow2_powi power_int_diff)

lemma pow2_0 [simp]: "pow2 0 = 1"
  by (simp add: pow2_def)

lemma pow2_nat: "0 \<le> e \<Longrightarrow> pow2 e = of_int (2 ^ nat e)"
  by (simp add: pow2_def)

lemma pow2_mono: "d \<le> e \<Longrightarrow> pow2 d \<le> pow2 e"
  by (simp add: pow2_powi power_int_increasing)

lemma pow2_strict_mono: "d < e \<Longrightarrow> pow2 d < pow2 e"
  by (simp add: pow2_powi power_int_strict_increasing)

lemma pow2_less_iff: "pow2 d < pow2 e \<longleftrightarrow> d < e"
  by (metis pow2_mono pow2_strict_mono linorder_not_less)

lemma pow2_1 [simp]: "pow2 1 = 2"
  by (simp add: pow2_def)

lemma pow2_Suc: "pow2 (e + 1) = 2 * pow2 e"
  by (simp add: pow2_add)

lemma bitlen_bounds: "0 < k \<Longrightarrow> 2 ^ (bitlen k - 1) \<le> k \<and> k < 2 ^ bitlen k"
proof (induction k rule: bitlen.induct)
  case (1 k)
  show ?case
  proof (cases "k = 1")
    case True
    then show ?thesis
      by (simp add: bitlen.simps [of 1] bitlen.simps [of 0])
  next
    case False
    with "1.prems" have k2: "0 < k div 2" by simp
    then have IH: "2 ^ (bitlen (k div 2) - 1) \<le> k div 2 \<and> k div 2 < 2 ^ bitlen (k div 2)"
      using "1.IH" "1.prems" by simp
    have pos: "0 < bitlen (k div 2)"
      using k2 by (subst bitlen.simps) simp
    have b: "bitlen k = Suc (bitlen (k div 2))"
      using "1.prems" by (subst bitlen.simps) simp
    have "2 ^ bitlen (k div 2) = (2 :: int) * 2 ^ (bitlen (k div 2) - 1)"
      using pos by (cases "bitlen (k div 2)") simp_all
    then show ?thesis
      using IH b by simp linarith
  qed
qed

lemma ilog2_bounds:
  assumes "0 < x"
  shows "pow2 (ilog2 x) \<le> x \<and> x < pow2 (ilog2 x + 1)"
proof (cases "1 \<le> x")
  case True
  then have f: "0 < \<lfloor>x\<rfloor>" by simp
  let ?n = "bitlen \<lfloor>x\<rfloor>"
  have n: "0 < ?n"
    using f by (subst bitlen.simps) simp
  from bitlen_bounds [OF f] have lo: "2 ^ (?n - 1) \<le> \<lfloor>x\<rfloor>" and hi: "\<lfloor>x\<rfloor> < 2 ^ ?n"
    by simp_all
  have e: "ilog2 x = int ?n - 1"
    using True by (simp add: ilog2_def)
  have "pow2 (int ?n - 1) = of_int (2 ^ (?n - 1))"
    using n by (subst pow2_nat) (simp_all add: nat_diff_distrib')
  also have "\<dots> \<le> of_int \<lfloor>x\<rfloor>"
    using lo by (simp only: of_int_le_iff)
  also have "\<dots> \<le> x" by simp
  finally have 1: "pow2 (ilog2 x) \<le> x" by (simp add: e)
  have "\<lfloor>x\<rfloor> + 1 \<le> 2 ^ ?n" using hi by simp
  then have "of_int (\<lfloor>x\<rfloor> + 1) \<le> (of_int (2 ^ ?n) :: rat)"
    by (simp only: of_int_le_iff)
  moreover have "x < of_int (\<lfloor>x\<rfloor> + 1)"
    by simp linarith
  moreover have "pow2 (int ?n) = of_int (2 ^ ?n)"
    by (subst pow2_nat) simp_all
  ultimately have "x < pow2 (ilog2 x + 1)"
    by (simp add: e)
  with 1 show ?thesis by simp
next
  case False
  then have x1: "x < 1" by simp
  let ?c = "\<lceil>1 / x\<rceil> - 1"
  have inv: "1 < 1 / x"
    using assms x1 by simp
  then have c: "0 < ?c"
    by (simp add: less_ceiling_iff)
  let ?n = "bitlen ?c"
  from bitlen_bounds [OF c] have lo: "2 ^ (?n - 1) \<le> ?c" and hi: "?c < 2 ^ ?n"
    by simp_all
  have n: "0 < ?n"
    using c by (subst bitlen.simps) simp
  have e: "ilog2 x = - int ?n"
    using False by (simp add: ilog2_def)
  have "\<lceil>1 / x\<rceil> \<le> 2 ^ ?n"
    using hi by simp
  then have "1 / x \<le> of_int (2 ^ ?n)"
    by (simp only: ceiling_le_iff)
  then have "1 / of_int (2 ^ ?n) \<le> x"
    using assms by (simp add: field_simps)
  moreover have "pow2 (- int ?n) = 1 / of_int (2 ^ ?n)"
    by (simp add: pow2_def)
  ultimately have 1: "pow2 (ilog2 x) \<le> x"
    by (simp add: e)
  have "2 ^ (?n - 1) < \<lceil>1 / x\<rceil>"
    using lo by simp
  then have "of_int (2 ^ (?n - 1)) < 1 / x"
    by (simp only: less_ceiling_iff)
  then have "x < 1 / of_int (2 ^ (?n - 1))"
    using assms by (simp add: field_simps)
  moreover have "pow2 (- int ?n + 1) = 1 / of_int (2 ^ (?n - 1))"
    using n by (cases ?n) (simp_all add: pow2_def)
  ultimately have "x < pow2 (ilog2 x + 1)"
    by (simp add: e)
  with 1 show ?thesis by simp
qed

lemma ilog2_unique:
  assumes "pow2 e \<le> x" "x < pow2 (e + 1)"
  shows "ilog2 x = e"
proof -
  have x: "0 < x"
    using assms(1) pow2_pos [of e] by linarith
  from ilog2_bounds [OF x] have "pow2 (ilog2 x) < pow2 (e + 1)" "pow2 e < pow2 (ilog2 x + 1)"
    using assms by linarith+
  then show ?thesis
    by (simp add: pow2_less_iff)
qed

lemma round_half_even_of_int [simp]: "round_half_even (of_int k) = k"
  by (simp add: round_half_even_def)

lemma round_half_even_bounds:
  "\<lfloor>x\<rfloor> \<le> round_half_even x \<and> round_half_even x \<le> \<lfloor>x\<rfloor> + 1"
  by (simp add: round_half_even_def Let_def)

lemma round_half_even_abs_le:
  assumes "\<bar>x\<bar> < of_int k"
  shows "\<bar>round_half_even x\<bar> \<le> k"
proof -
  have "x < of_int k" "- of_int k < x"
    using assms by linarith+
  then have "\<lfloor>x\<rfloor> < k" "- k \<le> \<lfloor>x\<rfloor>"
    by (simp_all add: floor_less_iff le_floor_iff)
  then show ?thesis
    using round_half_even_bounds [of x] by linarith
qed

lemma fp_round_exact:
  assumes "is_fp fmt x" "0 < prec fmt"
  shows "fp_round fmt x = x"
proof (cases "x = 0")
  case True
  then show ?thesis by (simp add: fp_round_def)
next
  case False
  from assms obtain m e where x: "x = of_int m * pow2 e" and m: "\<bar>m\<bar> < 2 ^ prec fmt"
    and e: "emin fmt - int (prec fmt) + 1 \<le> e"
    by (auto simp: is_fp_def)
  let ?p = "int (prec fmt)"
  let ?E = "max (ilog2 \<bar>x\<bar>) (emin fmt)"
  have ax: "0 < \<bar>x\<bar>" using False by simp
  have E: "?E - ?p + 1 \<le> e"
  proof (cases "ilog2 \<bar>x\<bar> \<le> emin fmt")
    case True
    then show ?thesis using e by simp
  next
    case False
    have "pow2 (ilog2 \<bar>x\<bar>) \<le> \<bar>x\<bar>"
      using ilog2_bounds [OF ax] by simp
    also have "\<bar>x\<bar> = of_int \<bar>m\<bar> * pow2 e"
      by (simp add: x abs_mult)
    also have "\<dots> < of_int (2 ^ prec fmt) * pow2 e"
      using m by (intro mult_strict_right_mono) (simp_all only: of_int_less_iff pow2_pos)
    also have "\<dots> = pow2 (?p + e)"
      by (simp add: pow2_add pow2_nat)
    finally have "ilog2 \<bar>x\<bar> < ?p + e"
      by (simp add: pow2_less_iff)
    then show ?thesis using False by simp
  qed
  define d where "d = e - (?E - ?p + 1)"
  have d: "0 \<le> d" using E by (simp add: d_def)
  have q: "fp_quantum fmt x = pow2 (?E - (?p - 1))"
    by (simp add: fp_quantum_def)
  have "x / pow2 (?E - (?p - 1)) = of_int m * pow2 (e - (?E - (?p - 1)))"
    by (simp add: x pow2_diff)
  also have "e - (?E - (?p - 1)) = d"
    by (simp add: d_def)
  finally have xq: "x / pow2 (?E - (?p - 1)) = of_int m * pow2 d" .
  define k where "k = m * 2 ^ nat d"
  have "of_int m * pow2 d = of_int k"
    using d by (simp add: pow2_nat k_def)
  then have "x / fp_quantum fmt x = of_int k"
    using xq by (simp only: q)
  then have "fp_round fmt x = (x / fp_quantum fmt x) * fp_quantum fmt x"
    using False by (simp add: fp_round_def)
  then show ?thesis
    by (simp add: q)
qed

lemma fp_round_is_fp:
  assumes "0 < prec fmt"
  shows "is_fp fmt (fp_round fmt x)"
proof (cases "x = 0")
  case True
  have "(0 :: rat) = of_int 0 * pow2 (emin fmt - int (prec fmt) + 1)" by simp
  then have "is_fp fmt 0"
    by (rule is_fpI) simp_all
  then show ?thesis using True by (simp add: fp_round_def)
next
  case False
  let ?p = "int (prec fmt)"
  let ?E = "max (ilog2 \<bar>x\<bar>) (emin fmt)"
  let ?q = "pow2 (?E - (?p - 1))"
  let ?n = "round_half_even (x / ?q)"
  have ax: "0 < \<bar>x\<bar>" using False by simp
  have r: "fp_round fmt x = of_int ?n * ?q"
    using False by (simp add: fp_round_def fp_quantum_def)
  have "\<bar>x\<bar> < pow2 (ilog2 \<bar>x\<bar> + 1)"
    using ilog2_bounds [OF ax] by simp
  also have "\<dots> \<le> pow2 (?E + 1)"
    by (intro pow2_mono) simp
  also have "\<dots> = of_int (2 ^ prec fmt) * ?q"
  proof -
    have "?E + 1 = ?p + (?E - (?p - 1))" by simp
    then have "pow2 (?E + 1) = pow2 ?p * ?q"
      by (metis pow2_add)
    then show ?thesis by (simp add: pow2_nat)
  qed
  finally have "\<bar>x / ?q\<bar> < of_int (2 ^ prec fmt)"
    by (simp add: abs_divide pos_divide_less_eq)
  then have n: "\<bar>?n\<bar> \<le> 2 ^ prec fmt"
    by (rule round_half_even_abs_le)
  show ?thesis
  proof (cases "\<bar>?n\<bar> < 2 ^ prec fmt")
    case True
    moreover have "emin fmt - ?p + 1 \<le> ?E - (?p - 1)"
      by simp
    ultimately show ?thesis
      unfolding r by (intro is_fpI [where m = ?n and e = "?E - (?p - 1)"]) simp_all
  next
    case False
    with n have eq: "\<bar>?n\<bar> = 2 ^ prec fmt" by simp
    define s :: int where "s = (if 0 \<le> ?n then 1 else - 1)"
    have n2: "?n = s * 2 ^ prec fmt"
      using eq by (auto simp: s_def)
    have p2: "(2 :: int) ^ prec fmt = 2 * 2 ^ (prec fmt - 1)"
      using assms by (cases "prec fmt") simp_all
    have "pow2 (?E - (?p - 1) + 1) = 2 * ?q"
      by (rule pow2_Suc)
    then have "of_int (s * 2 ^ (prec fmt - 1)) * pow2 (?E - (?p - 1) + 1) = of_int (s * (2 * 2 ^ (prec fmt - 1))) * ?q"
      by simp
    then have "of_int ?n * ?q = of_int (s * 2 ^ (prec fmt - 1)) * pow2 (?E - (?p - 1) + 1)"
      by (simp only: n2 p2)
    moreover have "\<bar>s * 2 ^ (prec fmt - 1)\<bar> < 2 ^ prec fmt"
      using assms by (simp add: s_def abs_mult p2)
    moreover have "emin fmt - ?p + 1 \<le> ?E - (?p - 1) + 1"
      by simp
    ultimately show ?thesis
      unfolding r by (rule is_fpI)
  qed
qed

lemma is_fp_floor:
  assumes "is_fp fmt x"
  shows "is_fp fmt (of_int \<lfloor>x\<rfloor>)"
proof -
  from assms obtain m e where x: "x = of_int m * pow2 e" and m: "\<bar>m\<bar> < 2 ^ prec fmt"
    and e: "emin fmt - int (prec fmt) + 1 \<le> e"
    by (auto simp: is_fp_def)
  show ?thesis
  proof (cases "0 \<le> e")
    case True
    define k where "k = m * 2 ^ nat e"
    have xk: "x = of_int k"
      using True by (simp add: x pow2_nat k_def)
    have "of_int \<lfloor>x\<rfloor> = x"
      unfolding xk by simp
    then show ?thesis using assms by (simp only:)
  next
    case False
    define c :: int where "c = 2 ^ nat (- e)"
    have c0: "0 < c" by (simp add: c_def)
    have pe: "pow2 e = 1 / of_int c"
      using False by (simp add: pow2_def c_def)
    have xc: "x = of_int m / of_int c"
      by (simp add: x pe)
    have f: "\<lfloor>x\<rfloor> = m div c"
      unfolding xc by (rule floor_divide_of_int_eq)
    have "\<bar>m div c\<bar> \<le> \<bar>m\<bar>"
    proof (cases "0 \<le> m")
      case True
      then have "0 \<le> m div c"
        using c0 by (simp add: pos_imp_zdiv_nonneg_iff)
      moreover have "m div c \<le> m"
        using True c0 zdiv_mono2 [of m 1 c] by simp
      ultimately show ?thesis by simp
    next
      case False
      then have "m div c < 0"
        using c0 by (intro div_neg_pos_less0) simp_all
      moreover have "m \<le> m div c"
        using False c0 zdiv_mono2_neg [of m 1 c] by simp
      ultimately show ?thesis by simp
    qed
    then have "\<bar>\<lfloor>x\<rfloor>\<bar> < 2 ^ prec fmt"
      using m f by simp
    moreover have "emin fmt - int (prec fmt) + 1 \<le> 0"
      using e False by simp
    ultimately show ?thesis
      by (intro is_fpI [where m = "\<lfloor>x\<rfloor>" and e = 0]) simp_all
  qed
qed

lemma is_fp_frac:
  assumes "is_fp fmt x" "0 \<le> x"
  shows "is_fp fmt (x - of_int \<lfloor>x\<rfloor>)"
proof -
  from assms obtain m e where x: "x = of_int m * pow2 e" and m: "\<bar>m\<bar> < 2 ^ prec fmt"
    and e: "emin fmt - int (prec fmt) + 1 \<le> e"
    by (auto simp: is_fp_def)
  have m0: "0 \<le> m"
    using assms(2) x by (simp add: zero_le_mult_iff)
  show ?thesis
  proof (cases "0 \<le> e")
    case True
    define k where "k = m * 2 ^ nat e"
    have xk: "x = of_int k"
      using True by (simp add: x pow2_nat k_def)
    have "x - of_int \<lfloor>x\<rfloor> = of_int 0 * pow2 e"
      unfolding xk by simp
    then show ?thesis
      by (rule is_fpI) (use e in simp_all)
  next
    case False
    define c :: int where "c = 2 ^ nat (- e)"
    have c0: "0 < c" by (simp add: c_def)
    have pe: "pow2 e = 1 / of_int c"
      using False by (simp add: pow2_def c_def)
    have xc: "x = of_int m / of_int c"
      by (simp add: x pe)
    have f: "\<lfloor>x\<rfloor> = m div c"
      unfolding xc by (rule floor_divide_of_int_eq)
    have "m mod c = m - m div c * c"
      by (simp add: minus_div_mult_eq_mod)
    then have mm: "(of_int (m mod c) :: rat) = of_int m - of_int (m div c) * of_int c"
      by (simp only: of_int_diff of_int_mult)
    have "x - of_int (m div c) = of_int (m mod c) * pow2 e"
      unfolding xc pe mm using c0 by (simp add: field_simps)
    then have "x - of_int \<lfloor>x\<rfloor> = of_int (m mod c) * pow2 e"
      by (simp only: f)
    moreover have "0 \<le> m mod c" "m mod c \<le> m"
      using m0 c0 by (simp_all add: zmod_le_nonneg_dividend)
    then have "\<bar>m mod c\<bar> < 2 ^ prec fmt"
      using m by simp
    ultimately show ?thesis
      using e by (rule is_fpI)
  qed
qed

lemma prec32 [simp]: "prec binary32 = 24" "emin binary32 = - 126" "emax binary32 = 127"
  by (simp_all add: binary32_def)

lemma prec64 [simp]: "prec binary64 = 53" "emin binary64 = - 1022" "emax binary64 = 1023"
  by (simp_all add: binary64_def)

lemma fp_max32: "fp_max binary32 = 340282346638528859811704183484516925440"
  by (simp add: fp_max_def pow2_def)

lemma fp_of_rat_exact:
  assumes "is_fp fmt x" "0 < prec fmt" "\<bar>x\<bar> \<le> fp_max fmt"
  shows "fp_of_rat fmt x = Fin x"
  using assms by (auto simp: fp_of_rat_def fp_round_exact Let_def)

lemma fp_of_rat_Fin:
  assumes "fp_of_rat fmt x = Fin y" "0 < prec fmt"
  shows "is_fp fmt y"
  using assms fp_round_is_fp [of fmt x] by (auto simp: fp_of_rat_def Let_def split: if_splits)

lemma is_fp32_dyadic: "\<bar>k\<bar> < 16777216 \<Longrightarrow> - 149 \<le> e \<Longrightarrow> is_fp binary32 (of_int k * pow2 e)"
  by (rule is_fpI [where m = k and e = e]) simp_all

lemma is_fp32_int: "\<bar>k\<bar> < 16777216 \<Longrightarrow> is_fp binary32 (of_int k)"
  using is_fp32_dyadic [of k 0] by simp

lemma fp32_dyadic:
  assumes "\<bar>k\<bar> < 16777216" "- 149 \<le> e" "e \<le> 100"
  shows "fp_of_rat binary32 (of_int k * pow2 e) = Fin (of_int k * pow2 e)"
proof (rule fp_of_rat_exact)
  show "is_fp binary32 (of_int k * pow2 e)"
    using assms by (intro is_fp32_dyadic)
  show "0 < prec binary32" by simp
  have "\<bar>of_int k * pow2 e\<bar> = of_int \<bar>k\<bar> * pow2 e"
    by (simp add: abs_mult)
  also have "\<dots> \<le> of_int 16777216 * pow2 100"
  proof (rule mult_mono)
    have "\<bar>k\<bar> \<le> 16777216" using assms(1) by simp
    then show "(of_int \<bar>k\<bar> :: rat) \<le> of_int 16777216"
      by (simp only: of_int_le_iff)
    show "pow2 e \<le> pow2 100"
      using assms(3) by (rule pow2_mono)
  qed simp_all
  also have "\<dots> \<le> fp_max binary32"
    by (simp add: fp_max32 pow2_def)
  finally show "\<bar>of_int k * pow2 e\<bar> \<le> fp_max binary32" .
qed

lemma foldl_add_replicate_exact:
  assumes "\<And>j. j \<le> n \<Longrightarrow> fp_of_rat binary32 (a + of_nat j * c) = Fin (a + of_nat j * c)"
  shows "foldl (fp_add binary32) (Fin a) (replicate n (Fin c)) = Fin (a + of_nat n * c)"
  using assms
proof (induction n arbitrary: a)
  case 0
  then show ?case by simp
next
  case (Suc n)
  have 1: "fp_add binary32 (Fin a) (Fin c) = Fin (a + c)"
    using Suc.prems [of 1] by simp
  have "foldl (fp_add binary32) (Fin (a + c)) (replicate n (Fin c)) = Fin (a + c + of_nat n * c)"
  proof (rule Suc.IH)
    fix j assume "j \<le> n"
    then show "fp_of_rat binary32 (a + c + of_nat j * c) = Fin (a + c + of_nat j * c)"
      using Suc.prems [of "Suc j"] by (simp add: algebra_simps)
  qed
  then show ?case
    using 1 by (simp add: algebra_simps)
qed

section \<open>Creating a resampler: auxiliary facts\<close>

lemma bnd_eq_Inr_iff: "bnd m f = Inr r \<longleftrightarrow> (\<exists>x. m = Inr x \<and> f x = Inr r)"
  by (cases m) auto

lemma rd_eq_Inr: "rd xs k = Inr v \<longleftrightarrow> k < length xs \<and> v = xs ! k"
  by (auto simp: rd_def)

lemma wr_eq_Inr: "wr xs k v = Inr ys \<longleftrightarrow> k < length xs \<and> ys = xs[k := v]"
  by (auto simp: wr_def)

lemma gain_loop:
  "forM [0..<n] (\<lambda>i gain. bnd (rd hf i) (\<lambda>c. Inr (fp_add binary32 gain c))) g0 =
     (if n \<le> length hf then Inr (foldl (fp_add binary32) g0 (take n hf)) else Inl Out_Of_Bounds)"
proof (induction n)
  case 0
  then show ?case by simp
next
  case (Suc n)
  show ?case
  proof (cases "Suc n \<le> length hf")
    case True
    then show ?thesis
      using Suc by (simp add: forM_upt_Suc rd_def take_Suc_conv_app_nth del: upt_Suc)
  next
    case False
    then show ?thesis
      using Suc by (cases "n \<le> length hf") (simp_all add: forM_upt_Suc rd_def del: upt_Suc)
  qed
qed

lemma normalize_loop:
  "forM [0..<n] (\<lambda>i hs. bnd (rd hs i) (\<lambda>c. wr hs i (fp_mul binary32 c gain))) hf =
     (if n \<le> length hf then Inr (map (\<lambda>c. fp_mul binary32 c gain) (take n hf) @ drop n hf)
      else Inl Out_Of_Bounds)"
proof (induction n)
  case 0
  then show ?case by simp
next
  case (Suc n)
  show ?case
  proof (cases "Suc n \<le> length hf")
    case True
    then have n: "n < length hf" by simp
    let ?hs = "map (\<lambda>c. fp_mul binary32 c gain) (take n hf) @ drop n hf"
    have l: "length (map (\<lambda>c. fp_mul binary32 c gain) (take n hf)) = n"
      using n by simp
    have d: "drop n hf = hf ! n # drop (Suc n) hf"
      using n by (simp add: Cons_nth_drop_Suc)
    have "?hs ! n = hf ! n"
      using l d by (metis nth_append_length)
    moreover have "?hs[n := v] = map (\<lambda>c. fp_mul binary32 c gain) (take n hf) @ v # drop (Suc n) hf" for v
      using l d by (metis list_update_length)
    ultimately show ?thesis
      using Suc n by (simp add: forM_upt_Suc rd_def wr_def take_Suc_conv_app_nth del: upt_Suc)
  next
    case False
    then show ?thesis
      using Suc by (cases "n \<le> length hf") (simp_all add: forM_upt_Suc rd_def del: upt_Suc)
  qed
qed

lemma resamp_taps_eq:
  "resamp_taps des m fc As n_pfb =
     (let n = unat (2 * m * n_pfb + 1);
          hf = resamp_design des m fc As n_pfb;
          gain = fp_div binary32 (uword_to_fp binary32 n_pfb) (foldl (fp_add binary32) (Fin 0) (take n hf))
      in if n \<le> length hf
         then Inr (map (\<lambda>c. fp_mul binary32 c gain) (take n hf) @ drop n hf)
         else Inl Out_Of_Bounds)"
  by (simp add: resamp_taps_def resamp_gain_def resamp_normalize_def gain_loop normalize_loop Let_def)

lemma forM_upt_inv_partial:
  assumes "forM [0..<n] f s = Inr t" "I 0 s"
    and "\<And>k u u'. k < n \<Longrightarrow> I k u \<Longrightarrow> f k u = Inr u' \<Longrightarrow> I (Suc k) u'"
  shows "I n t"
  using assms(1,3)
proof (induction n arbitrary: t)
  case 0
  then show ?case using assms(2) by simp
next
  case (Suc n)
  from Suc.prems(1) obtain u where u: "forM [0..<n] f s = Inr u" "f n u = Inr t"
    by (auto simp: forM_upt_Suc bnd_eq_Inr_iff simp del: upt_Suc)
  have "I n u"
    using u(1) Suc.prems(2) by (intro Suc.IH) auto
  then show ?case
    using Suc.prems(2) [of n u t] u(2) by simp
qed

lemma fill_taps_take:
  fixes n_f sub_len :: "32 word"
  assumes "unat n_f * unat sub_len = n" "n < 2 ^ 32"
  shows "fill_taps quant n_f sub_len (take n hf) t0 = fill_taps quant n_f sub_len hf t0"
proof -
  have r: "rd (take n hf) (unat ((sub_len - 1 - of_nat j) * n_f + of_nat i))
         = rd hf (unat ((sub_len - 1 - of_nat j) * n_f + of_nat i))"
    if "i < unat n_f" "j < unat sub_len" for i j
  proof -
    have "(unat sub_len - 1 - j) * unat n_f + i < (unat sub_len - 1 - j) * unat n_f + unat n_f"
      using that by simp
    also have "\<dots> = Suc (unat sub_len - 1 - j) * unat n_f" by simp
    also have "\<dots> \<le> unat sub_len * unat n_f"
      using that by (intro mult_le_mono1) simp
    finally have "(unat sub_len - 1 - j) * unat n_f + i < n"
      using assms(1) by (simp add: mult.commute)
    then show ?thesis
      using word_idx_src [OF that] assms by (simp add: rd_def)
  qed
  show ?thesis
    unfolding fill_taps_def
    by (intro forM_cong) (simp add: r)
qed

lemma firpfb_q31_create_take:
  "firpfb_q31_create cfg junk n_f (take (unat len) hf) len = firpfb_q31_create cfg junk n_f hf len"
proof (cases "n_f \<noteq> 0 \<and> len div n_f * n_f = len")
  case True
  then have "unat n_f dvd unat len"
    using word_div_mult_eq_iff [of n_f len] by blast
  then have "unat n_f * unat (len div n_f) = unat len"
    by (simp add: unat_div)
  then have e: "fill_taps quant_q31 n_f (len div n_f) (take (unat len) hf) t0
           = fill_taps quant_q31 n_f (len div n_f) hf t0" for t0
    using fill_taps_take [of n_f "len div n_f" "unat len"] unat_lt32 [of len] by simp
  show ?thesis
    by (simp only: firpfb_q31_create_def Let_def e)
next
  case False
  then show ?thesis
    by (auto simp: firpfb_q31_create_def Let_def)
qed

lemma firpfb_q31_create_Inr:
  assumes "firpfb_q31_create cfg junk n_f hf len = Inr p"
  shows "n_f \<noteq> 0" "unat n_f dvd unat len" "unat len div unat n_f = unat (NUM_TAPS cfg)"
    "nf p = n_f" "h_len p = len" "h_sub_len p = NUM_TAPS cfg" "idx p = NUM_TAPS cfg - 1"
    "window p = replicate WINDOW_SIZE (0, 0)"
proof -
  from assms show n: "n_f \<noteq> 0"
    by (auto simp: firpfb_q31_create_def split: if_splits)
  from assms n have d: "len div n_f * n_f = len" and s: "len div n_f = NUM_TAPS cfg"
    by (auto simp: firpfb_q31_create_def Let_def split: if_splits)
  show "unat n_f dvd unat len"
    using d n by (simp add: word_div_mult_eq_iff)
  show "unat len div unat n_f = unat (NUM_TAPS cfg)"
    using s by (metis unat_div)
  from assms n d s obtain t where "p = \<lparr>nf = n_f, h = t, h_len = len, h_sub_len = NUM_TAPS cfg,
                     window = replicate WINDOW_SIZE (0, 0), idx = NUM_TAPS cfg - 1\<rparr>"
    by (auto simp: firpfb_q31_create_def Let_def bnd_eq_Inr_iff)
  then show "nf p = n_f" "h_len p = len" "h_sub_len p = NUM_TAPS cfg" "idx p = NUM_TAPS cfg - 1"
    "window p = replicate WINDOW_SIZE (0, 0)"
    by simp_all
qed

lemma foldl_replicate_Suc: "foldl f a (replicate (Suc n) x) = foldl f (f a x) (replicate n x)"
  by simp

lemma flat_sum: "foldl (fp_add binary32) (Fin 0) (replicate 33 (Fin (1 / 4))) = Fin (33 / 4)"
proof -
  have "foldl (fp_add binary32) (Fin 0) (replicate 33 (Fin (1 / 4)))
      = foldl (fp_add binary32) (Fin 0) (replicate (Suc (Suc (Suc (Suc (Suc (Suc (Suc (Suc (Suc (Suc (Suc
          (Suc (Suc (Suc (Suc (Suc (Suc (Suc (Suc (Suc (Suc (Suc (Suc (Suc (Suc (Suc (Suc (Suc (Suc (Suc (Suc
          (Suc (Suc 0))))))))))))))))))))))))))))))))) (Fin (1 / 4)))"
    by (simp add: numeral_eq_Suc)
  also have "\<dots> = Fin (33 / 4)"
    unfolding foldl_replicate_Suc by (simp add: fp_eval)
  finally show ?thesis .
qed

lemma flat_len_wrap: "(4294967328 :: 32 word) = 32"
  by simp

lemma flat_gain: "fp_div binary32 (uword_to_fp binary32 (2 :: 32 word)) (Fin (33 / 4)) = Fin (1016801 / 4194304)"
  by (simp add: uword_to_fp_def fp_eval)

lemma flat_tap: "fp_of_rat binary32 (1016801 / 16777216) = Fin (1016801 / 16777216)"
  by (simp add: fp_eval)

lemma flat_quant: "quant_q31 (Fin (1016801 / 16777216)) = Inr 130150528"
  by (simp add: quant_q31_def fp_eval)

lemma flat_taps_wrap:
  "resamp_taps flat_designer 1073741832 (Fin (1 / 4)) (Fin 60) 2 = Inr (replicate 33 (Fin (1016801 / 16777216)))"
  by (simp add: resamp_taps_eq resamp_design_def flat_designer_def flat_sum flat_gain flat_tap)

lemma flat_bank:
  "\<exists>p. firpfb_q31_create cfg_portable zero_junk 2 (replicate 33 (Fin (1016801 / 16777216))) 32 = Inr p"
  by (rule create_q31_succeeds) (simp_all add: unat_NUM_TAPS cfg_portable_def flat_quant)

lemma resamp_create_Inr:
  assumes "resamp_q15_create cfg des g m fc As n_pfb = Inr q"
  obtains hf p where "resamp_taps des m fc As n_pfb = Inr hf"
    and "firpfb_q31_create cfg (g_tab g) n_pfb hf (2 * m * n_pfb) = Inr p"
    and "q = \<lparr>rate = Fin 1, del = Fin 1, tau = Fin 0, bf = g_bf g, b = 0, mu = Fin 0,
              y0 = g_y0 g, y1 = g_y1 g, npfb = n_pfb, pfb = p, state = RESAMP_STATE_INTERP\<rparr>"
  using assms by (auto simp: resamp_q15_create_def Let_def bnd_eq_Inr_iff)

lemma unat_2mn:
  fixes m n_pfb :: "32 word"
  assumes "2 * unat m * unat n_pfb + 1 < 2 ^ 32"
  shows "unat (2 * m * n_pfb) = 2 * unat m * unat n_pfb"
    and "unat (2 * m * n_pfb + 1) = 2 * unat m * unat n_pfb + 1"
proof -
  have e: "2 * m * n_pfb = (of_nat (2 * unat m * unat n_pfb) :: 32 word)"
    by simp
  show "unat (2 * m * n_pfb) = 2 * unat m * unat n_pfb"
    unfolding e using assms by (intro unat_of_nat32) simp
  have e1: "2 * m * n_pfb + 1 = (of_nat (2 * unat m * unat n_pfb + 1) :: 32 word)"
    by simp
  show "unat (2 * m * n_pfb + 1) = 2 * unat m * unat n_pfb + 1"
    unfolding e1 using assms by (intro unat_of_nat32) simp
qed

lemma unat_even_succ:
  fixes w :: "32 word"
  shows "unat (2 * w + 1) = unat (2 * w) + 1"
proof -
  have "unat (2 * w) = (2 * unat w) mod 2 ^ 32"
    by (simp add: unat_word_ariths)
  then have "even (unat (2 * w))"
    by (simp add: dvd_mod_iff)
  moreover have "unat (2 * w) < 4294967296"
    by (rule unat_lt32)
  ultimately have "unat (2 * w) + 1 < 4294967296"
    by (cases "unat (2 * w) = 4294967295") auto
  then show ?thesis
    using unat_add_lem [of "2 * w" 1] by simp
qed

lemma sum_list_scaled:
  assumes "\<And>c. c \<in> set xs \<Longrightarrow> fp_mul binary32 c gain = Fin (fp_val c * k)"
  shows "sum_list (map fp_val (map (\<lambda>c. fp_mul binary32 c gain) xs)) = sum_list (map fp_val xs) * k"
  using assms by (induction xs) (simp_all add: algebra_simps)

lemma g_zero_sel:
  "g_tab g_zero = zero_junk" "g_bf g_zero = Fin 0" "g_y0 g_zero = (0, 0)" "g_y1 g_zero = (0, 0)"
  by (simp_all add: g_zero_def)

lemma quarter_steps:
  "j \<le> 32 \<Longrightarrow> fp_of_rat binary32 (0 + of_nat j * (1 / 4)) = Fin (0 + of_nat j * (1 / 4))"
  using fp32_dyadic [of "int j" "- 2"] by (simp add: pow2_def)

lemma trim_sum:
  "foldl (fp_add binary32) (Fin 0) (replicate 32 (Fin (1 / 4))) = Fin 8"
  "fp_of_rat binary32 8 = Fin 8"
  using foldl_add_replicate_exact [of 32 0 "1 / 4"] quarter_steps
  by (simp_all add: fp_eval)

lemma trim_gain: "fp_div binary32 (uword_to_fp binary32 (2 :: 32 word)) (Fin 8) = Fin (1 / 4)"
  by (simp add: uword_to_fp_def fp_eval)

lemma trim_tap: "fp_of_rat binary32 (1 / 16) = Fin (1 / 16)" "fp_of_rat binary32 0 = Fin 0"
  by (simp_all add: fp_eval)

lemma trim_quant: "quant_q31 (Fin (1 / 16)) = Inr 134217728"
  by (simp add: quant_q31_def fp_eval)

lemma trim_taps:
  "resamp_taps trim_designer 8 (Fin (1 / 4)) (Fin 60) 2 = Inr (replicate 32 (Fin (1 / 16)) @ [Fin 0])"
  by (simp add: resamp_taps_eq resamp_design_def trim_designer_def trim_sum trim_gain trim_tap)

lemma demo_bank_created:
  "firpfb_q31_create cfg_portable zero_junk 2 (replicate 32 (Fin (1 / 16))) 32 = Inr demo_bank"
proof -
  have t: "tap_table quant_q31 2 16 (replicate 32 (Fin (1 / 16))) 32 = replicate 64 134217728"
    using tap_table_const [of 32 quant_q31 "replicate 32 (Fin (1 / 16))" 2 16 134217728]
      tap_src_less [of _ 2 16] by (simp add: trim_quant)
  show ?thesis
    using create_q31_result [of 2 32 cfg_portable "replicate 32 (Fin (1 / 16))" zero_junk]
    by (simp add: unat_NUM_TAPS cfg_portable_def trim_quant t demo_bank_def NUM_TAPS_def)
qed

lemma demo_created:
  "resamp_q15_create cfg_portable trim_designer g_zero 8 (Fin (1 / 4)) (Fin 60) 2 = Inr demo_resamp"
proof -
  have "firpfb_q31_create cfg_portable zero_junk 2 (replicate 32 (Fin (1 / 16)) @ [Fin 0]) 32 = Inr demo_bank"
    using firpfb_q31_create_take [of cfg_portable zero_junk 2 32 "replicate 32 (Fin (1 / 16)) @ [Fin 0]"]
      demo_bank_created by simp
  then show ?thesis
    by (simp add: resamp_q15_create_def trim_taps g_zero_def demo_resamp_def)
qed

section \<open>Running the resampler: auxiliary facts\<close>

lemma demo_exec1: "firpfb_q31_execute cfg_portable demo_pushed 1 = Inr (4096, 0)"
  by (simp add: firpfb_q31_execute_def dotprod_q31_def cfg_portable_def dotprod_q31_scalar_def
      demo_pushed_def demo_bank_def upt_eval rd_def WINDOW_SIZE_def nth_list_update
      cscale_def cadd_def cq31_to_cf_def cf_to_cq31_def sword_to_fp_def fp_eval)

lemma demo_push2: "firpfb_q31_push demo_pushed (widen (2, 0)) = Inr demo_pushed2"
  unfolding firpfb_q31_push_def
  by (subst firpfb_push_direct)
    (simp_all add: WINDOW_SIZE_def demo_pushed_def demo_pushed2_def demo_bank_def widen_def)

lemmas dot_eval =
  firpfb_q31_execute_def dotprod_q31_def cfg_portable_def dotprod_q31_scalar_def
  demo_bank_def upt_eval rd_def WINDOW_SIZE_def nth_list_update
  cscale_def cadd_def cq31_to_cf_def cf_to_cq31_def sword_to_fp_def

lemma demo_exec2: "firpfb_q31_execute cfg_portable demo_pushed2 0 = Inr (12288, 0)"
  "firpfb_q31_execute cfg_portable demo_pushed2 1 = Inr (12288, 0)"
  by (simp_all add: dot_eval demo_pushed2_def fp_eval)

lemma demo_boundary_sel:
  "rate demo_boundary = Fin 2" "del demo_boundary = Fin (1 / 2)" "tau demo_boundary = Fin (- (1 / 2))"
  "bf demo_boundary = Fin (- 1)" "b demo_boundary = 0" "mu demo_boundary = Fin 0"
  "y0 demo_boundary = (4096, 0)" "y1 demo_boundary = (4096, 0)" "npfb demo_boundary = 2"
  "pfb demo_boundary = demo_pushed" "state demo_boundary = RESAMP_STATE_BOUNDARY"
  by (simp_all add: demo_boundary_def)

lemma cq31_12288: "cq31_to_cf (12288, 0) = (Fin (3 / 524288), Fin 0)"
  "cq31_to_cf (4096, 0) = (Fin (1 / 524288), Fin 0)"
  by (simp_all add: cq31_to_cf_def sword_to_fp_def fp_eval)

lemma interp_mu0:
  "mu q = Fin 0 \<Longrightarrow> cq31_to_cf (y0 q) = (Fin u, Fin 0) \<Longrightarrow> cq31_to_cf (y1 q) = (Fin v, Fin 0)
   \<Longrightarrow> fp_of_rat binary32 u = Fin u \<Longrightarrow> interpolate q = (Fin u, Fin 0)"
  by (simp add: interpolate_def cscale_def cadd_def fp_sub_def fp_eval)

lemma fp32_small: "fp_of_rat binary32 (3 / 524288) = Fin (3 / 524288)"
  "fp_of_rat binary32 (1 / 524288) = Fin (1 / 524288)"
  by (simp_all add: fp_eval)

lemma update_half:
  "tau q = Fin 0 \<Longrightarrow> del q = Fin (1 / 2) \<Longrightarrow> npfb q = 2 \<Longrightarrow>
   update_timing_state q = Inr (q\<lparr>tau := Fin (1 / 2), bf := Fin 1, b := 1, mu := Fin 0\<rparr>)"
  by (simp add: update_timing_state_def uword_to_fp_def fp_sub_def fp_eval)

lemma demo_iterB:
  "resamp_iter cfg_portable
     (demo_boundary\<lparr>pfb := demo_pushed2, y0 := (12288, 0), y1 := (12288, 0), tau := Fin (1 / 2),
            bf := Fin 1, b := 1, mu := Fin 0, state := RESAMP_STATE_INTERP\<rparr>) ys k
   = Inr (demo_boundary\<lparr>pfb := demo_pushed2, y0 := (12288, 0), y1 := (12288, 0), tau := Fin (1 / 2),
            bf := Fin 1, b := 2\<rparr>, ys, k)"
  by (simp add: resamp_iter_def demo_exec2 demo_boundary_sel)

lemma loop_step:
  "b q < npfb q \<Longrightarrow> resamp_iter cfg q y n = Inr (q', y', n') \<Longrightarrow>
   resamp_loop cfg (Suc fuel) q y n = resamp_loop cfg fuel q' y' n'"
  by simp

lemma loop_done: "\<not> b q < npfb q \<Longrightarrow> resamp_loop cfg fuel q y n = Inr (q, y, n)"
  by (cases fuel) simp_all

lemma demo_exec0: "firpfb_q31_execute cfg_portable demo_pushed 0 = Inr (4096, 0)"
  by (simp add: dot_eval demo_pushed_def fp_eval)

lemma demo_push1: "firpfb_q31_push demo_bank (widen (1, 0)) = Inr demo_pushed"
  unfolding firpfb_q31_push_def
  by (subst firpfb_push_direct)
    (simp_all add: WINDOW_SIZE_def demo_pushed_def demo_bank_def widen_def)

lemma demo_set_rate:
  "resamp_q15_set_rate demo_resamp (Fin (11184811 / 8388608))
     = demo_resamp\<lparr>rate := Fin (11184811 / 8388608), del := Fin (3 / 4)\<rparr>"
  by (simp add: resamp_q15_set_rate_def fp_eval)

lemma demo_resamp_sel:
  "rate demo_resamp = Fin 1" "del demo_resamp = Fin 1" "tau demo_resamp = Fin 0"
  "bf demo_resamp = Fin 0" "b demo_resamp = 0" "mu demo_resamp = Fin 0"
  "y0 demo_resamp = (0, 0)" "y1 demo_resamp = (0, 0)" "npfb demo_resamp = 2"
  "pfb demo_resamp = demo_bank" "state demo_resamp = RESAMP_STATE_INTERP"
  by (simp_all add: demo_resamp_def)

lemma update_three_quarters:
  "tau q = Fin 0 \<Longrightarrow> del q = Fin (3 / 4) \<Longrightarrow> npfb q = 2 \<Longrightarrow>
   update_timing_state q = Inr (q\<lparr>tau := Fin (3 / 4), bf := Fin (3 / 2), b := 1, mu := Fin (1 / 2)\<rparr>)"
  by (simp add: update_timing_state_def uword_to_fp_def fp_sub_def fp_eval)

lemma demo_iter_mid:
  "resamp_iter cfg_portable
     (demo_resamp\<lparr>rate := Fin (11184811 / 8388608), del := Fin (3 / 4), pfb := demo_pushed\<rparr>)
     (replicate 2 (Fin 0, Fin 0)) 0
   = Inr (demo_mid, [(Fin (1 / 524288), Fin 0), (Fin 0, Fin 0)], 1)"
  by (simp add: resamp_iter_def demo_exec0 demo_exec1 demo_resamp_sel store_def
      interp_mu0 [where u = "1 / 524288" and v = "1 / 524288"] cq31_12288 fp32_small
      update_three_quarters numeral_2_eq_2)
    (simp add: demo_resamp_def demo_mid_def)

lemma demo_iter_last:
  "resamp_iter cfg_portable demo_mid ys k
     = Inr (demo_mid\<lparr>state := RESAMP_STATE_BOUNDARY, b := 2\<rparr>, ys, k)"
  by (simp add: resamp_iter_def demo_exec1 demo_mid_def)

section \<open>Timing on a dyadic grid: auxiliary facts\<close>

lemma grid_exact:
  assumes "\<bar>T\<bar> < 2 ^ 24" "k \<le> 100"
  shows "fp_of_rat binary32 (of_int T / 2 ^ k) = Fin (of_int T / 2 ^ k)"
proof -
  have "pow2 (- int k) = 1 / 2 ^ k"
    by (simp add: pow2_def power_int_minus divide_simps)
  then show ?thesis
    using fp32_dyadic [of T "- int k"] assms by simp
qed

lemma int_exact:
  assumes "\<bar>T\<bar> < 2 ^ 24"
  shows "fp_of_rat binary32 (of_int T) = Fin (of_int T)"
  using grid_exact [of T 0] assms by simp

lemma timed_facts:
  assumes "0 < D" "2 ^ k \<le> D * N" "(2 ^ k + D) * N < (2 :: int) ^ 24"
  shows "0 < N" "N < 2 ^ 24" "k < 24" "D < 2 ^ 24" "(2 :: int) ^ k < 2 ^ 24"
proof -
  have "0 < D * N"
    using assms(2) by (smt (verit) zero_less_power)
  then show n: "0 < N"
    using assms(1) by (simp add: zero_less_mult_iff)
  have p: "(0 :: int) < 2 ^ k"
    by simp
  have q: "1 \<le> 2 ^ k + D" "0 \<le> 2 ^ k + D" "1 \<le> N" "0 \<le> N"
    using n assms(1) p by linarith+
  have "1 * N \<le> (2 ^ k + D) * N"
    using q by (intro mult_right_mono)
  then show "N < 2 ^ 24"
    using assms(3) by simp
  have "(2 ^ k + D) * 1 \<le> (2 ^ k + D) * N"
    using q by (intro mult_left_mono)
  then have s: "2 ^ k + D < 2 ^ 24"
    using assms(3) by simp
  then show "D < 2 ^ 24" and e: "(2 :: int) ^ k < 2 ^ 24"
    using p assms(1) by linarith+
  show "k < 24"
  proof (rule ccontr)
    assume "\<not> k < 24"
    then have "(2 :: int) ^ 24 \<le> 2 ^ k"
      by (intro power_increasing) auto
    then show False
      using e by simp
  qed
qed

lemma uword_exact:
  fixes w :: "32 word"
  assumes "uint w < 2 ^ 24"
  shows "uword_to_fp binary32 w = Fin (of_int (uint w))"
  unfolding uword_to_fp_def using assms by (intro int_exact) simp

lemma rat_trunc_of_int [simp]: "rat_trunc (of_int z) = z"
  by (simp add: rat_trunc_def)

lemma floor_grid: "\<lfloor>(of_int a :: rat) / 2 ^ k\<rfloor> = a div 2 ^ k"
  using floor_divide_of_int_eq [of a "2 ^ k", where ?'a = rat] by simp

lemma update_exact:
  assumes d: "del q = Fin (of_int D / 2 ^ k)" and t: "tau q = Fin (of_int T / 2 ^ k)"
    and D: "0 < D" "2 ^ k \<le> D * uint (npfb q)" "(2 ^ k + D) * uint (npfb q) < 2 ^ 24"
    and T: "0 \<le> T + D" "T < 2 ^ k"
  shows "\<exists>m c. update_timing_state q =
           Inr (q\<lparr>tau := Fin (of_int (T + D) / 2 ^ k), bf := c,
                  b := word_of_int ((T + D) * uint (npfb q) div 2 ^ k), mu := m\<rparr>)
         \<and> (T + D) * uint (npfb q) < 2 ^ 24
         \<and> uint (word_of_int ((T + D) * uint (npfb q) div 2 ^ k) :: 32 word)
             = (T + D) * uint (npfb q) div 2 ^ k"
proof -
  let ?N = "uint (npfb q)"
  note f = timed_facts [OF D]
  have k: "k \<le> 100"
    using f(3) by simp
  have N0: "0 \<le> ?N" by simp
  have "(T + D) * ?N \<le> (2 ^ k + D) * ?N"
    using T(2) N0 by (intro mult_right_mono) auto
  then have b1: "(T + D) * ?N < 2 ^ 24"
    using D(3) by linarith
  have "T + D \<le> (T + D) * ?N"
    using mult_left_mono [of 1 ?N "T + D"] T(1) f(1) by simp
  then have b2: "\<bar>T + D\<bar> < 2 ^ 24"
    using b1 T(1) by linarith
  have b3: "0 \<le> (T + D) * ?N"
    using T(1) N0 by simp
  have s: "fp_add binary32 (tau q) (del q) = Fin (of_int (T + D) / 2 ^ k)"
    using grid_exact [OF b2 k] by (simp add: d t add_divide_distrib)
  have n: "uword_to_fp binary32 (npfb q) = Fin (of_int ?N)"
    using f(2) by (intro uword_exact) simp
  have "\<bar>(T + D) * ?N\<bar> < 2 ^ 24"
    using b1 b3 by linarith
  then have p: "fp_mul binary32 (Fin (of_int (T + D) / 2 ^ k)) (Fin (of_int ?N))
      = Fin (of_int ((T + D) * ?N) / 2 ^ k)"
    using grid_exact [of "(T + D) * ?N" k] k by simp
  let ?z = "(T + D) * ?N div 2 ^ k"
  have z0: "0 \<le> ?z"
    using b3 by (simp add: pos_imp_zdiv_nonneg_iff)
  have "?z \<le> (T + D) * ?N"
    using zdiv_mono2 [of "(T + D) * ?N" 1 "2 ^ k"] b3 by simp
  then have z1: "?z < 2 ^ 24"
    using b1 by linarith
  then have z2: "?z < 2 ^ 32"
    by simp
  have c: "fp_to_uword (fp_floor (Fin (of_int ((T + D) * ?N) / 2 ^ k))) = Inr (word_of_int ?z :: 32 word)"
    using z0 z2 by (simp add: floor_grid del: of_int_mult of_int_add)
  have u: "uint (word_of_int ?z :: 32 word) = ?z"
    using z0 z2 by (simp add: uint_word_of_int take_bit_int_eq_self)
  define A where "A = fp_add binary32 (tau q) (del q)"
  define B where "B = fp_mul binary32 A (uword_to_fp binary32 (npfb q))"
  have e: "update_timing_state q =
      bnd (fp_to_uword (fp_floor B)) (\<lambda>base.
        Inr (q\<lparr>tau := A, bf := B, b := base, mu := fp_sub binary32 B (uword_to_fp binary32 base)\<rparr>))"
    by (simp add: update_timing_state_def Let_def A_def B_def)
  have A: "A = Fin (of_int (T + D) / 2 ^ k)"
    unfolding A_def by (rule s)
  have B: "B = Fin (of_int ((T + D) * ?N) / 2 ^ k)"
    unfolding B_def A n by (rule p)
  have "update_timing_state q =
      Inr (q\<lparr>tau := Fin (of_int (T + D) / 2 ^ k), bf := B, b := word_of_int ?z,
             mu := fp_sub binary32 B (uword_to_fp binary32 (word_of_int ?z :: 32 word))\<rparr>)"
    unfolding e unfolding B c bnd_Inr A ..
  then show ?thesis
    using b1 u by blast
qed

lemma avoids_Inr [simp]: "avoids e (Inr x)"
  by (simp add: avoids_def)

lemma avoids_Inl [simp]: "avoids e (Inl e') \<longleftrightarrow> e' \<noteq> e"
  by (auto simp: avoids_def)

lemma avoids_bnd: "avoids e m \<Longrightarrow> (\<And>x. avoids e (f x)) \<Longrightarrow> avoids e (bnd m f)"
  by (cases m) simp_all

lemma avoids_if: "(c \<Longrightarrow> avoids e m) \<Longrightarrow> (\<not> c \<Longrightarrow> avoids e m') \<Longrightarrow> avoids e (if c then m else m')"
  by simp

lemma avoids_prod: "(\<And>u v. avoids e (f u v)) \<Longrightarrow> avoids e (case x of (u, v) \<Rightarrow> f u v)"
  by (cases x) simp

lemma avoids_forM: "(\<And>i s. avoids e (f i s)) \<Longrightarrow> avoids e (forM xs f s)"
proof (induction xs arbitrary: s)
  case Nil
  then show ?case by simp
next
  case (Cons x xs)
  show ?case
    using Cons.prems [of x s] Cons.IH [OF Cons.prems]
    by (cases "f x s") simp_all
qed

lemma avoids_rd: "loop_fault e \<Longrightarrow> avoids e (rd xs k)"
  by (auto simp: rd_def loop_fault_def)

lemma avoids_wr: "loop_fault e \<Longrightarrow> avoids e (wr xs k v)"
  by (auto simp: wr_def loop_fault_def)

lemma avoids_ld: "loop_fault e \<Longrightarrow> avoids e (ld xs off n)" "loop_fault e \<Longrightarrow> avoids e (ld_cplx ys off n)"
  by (auto simp: ld_def ld_cplx_def loop_fault_def)

lemma avoids_sadd32: "loop_fault e \<Longrightarrow> avoids e (sadd32 x y)"
  by (auto simp: sadd32_def loop_fault_def)

lemma avoids_fp_to_sword: "loop_fault e \<Longrightarrow> avoids e (fp_to_sword a)"
  by (cases a) (auto simp: Let_def loop_fault_def)

lemma avoids_fp_to_uword: "loop_fault e \<Longrightarrow> avoids e (fp_to_uword a)"
  by (cases a) (auto simp: Let_def loop_fault_def)

lemmas avoids_base = avoids_rd avoids_wr avoids_ld avoids_sadd32 avoids_fp_to_sword avoids_fp_to_uword

lemma avoids_cf_to_cq31: "loop_fault e \<Longrightarrow> avoids e (cf_to_cq31 x)"
  unfolding cf_to_cq31_def by (intro avoids_bnd avoids_base) simp_all

lemma avoids_scalar: "loop_fault e \<Longrightarrow> avoids e (dotprod_q31_scalar a aoff c coff n)"
  unfolding dotprod_q31_scalar_def
  by (intro avoids_bnd avoids_forM avoids_base avoids_cf_to_cq31) simp_all

lemma avoids_neon_mul: "loop_fault e \<Longrightarrow> avoids e (neon_mul_q31 a aoff c coff k)"
  unfolding neon_mul_q31_def by (intro avoids_bnd avoids_base) simp_all

lemma avoids_sse_mul: "loop_fault e \<Longrightarrow> avoids e (sse_mul_q31 a aoff c coff k)"
  unfolding sse_mul_q31_def by (intro avoids_bnd avoids_base) simp_all

lemma avoids_neon: "loop_fault e \<Longrightarrow> avoids e (dotprod_q31_neon cfg a aoff c coff)"
  unfolding dotprod_q31_neon_def
  by (intro avoids_bnd avoids_if avoids_base avoids_neon_mul) simp_all

lemma avoids_sse2: "loop_fault e \<Longrightarrow> avoids e (dotprod_q31_sse2 cfg a aoff c coff)"
  unfolding dotprod_q31_sse2_def Let_def
  by (intro avoids_bnd avoids_if avoids_base avoids_sse_mul) simp_all

lemma avoids_execute: "loop_fault e \<Longrightarrow> avoids e (firpfb_q31_execute cfg p f)"
  by (simp add: firpfb_q31_execute_def dotprod_q31_def avoids_scalar avoids_neon avoids_sse2)

lemma avoids_update: "loop_fault e \<Longrightarrow> avoids e (update_timing_state q)"
  unfolding update_timing_state_def Let_def by (intro avoids_bnd avoids_base) simp_all

lemma avoids_push: "loop_fault e \<Longrightarrow> avoids e (firpfb_q31_push p x)"
  unfolding firpfb_q31_push_def firpfb_push_def
  by (intro avoids_bnd avoids_if avoids_forM avoids_base) simp_all

lemma avoids_store: "loop_fault e \<Longrightarrow> e = Buffer_Overflow \<longrightarrow> unat n < length y \<Longrightarrow> avoids e (store y n v)"
  by (auto simp: store_def loop_fault_def)

lemma avoids_iter:
  assumes "loop_fault e" "e = Buffer_Overflow \<longrightarrow> unat n < length y"
  shows "avoids e (resamp_iter cfg q y n)"
  unfolding resamp_iter_def Let_def
  by (intro avoids_bnd avoids_if avoids_prod avoids_execute avoids_update avoids_store assms)
    simp_all

lemma update_fields:
  assumes "update_timing_state q = Inr q'"
  shows "del q' = del q" "npfb q' = npfb q" "state q' = state q" "rate q' = rate q" "pfb q' = pfb q"
  using assms by (auto simp: update_timing_state_def Let_def bnd_eq_Inr)

lemma iter_Inr:
  assumes "resamp_iter cfg q y n = Inr (q', y', n')"
  obtains (flip) v0 where "state q = RESAMP_STATE_INTERP" "b q = npfb q - 1"
      "q' = q\<lparr>y0 := v0, state := RESAMP_STATE_BOUNDARY, b := npfb q\<rparr>" "y' = y" "n' = n"
  | (emit) q1 q2 where "\<not> (state q = RESAMP_STATE_INTERP \<and> b q = npfb q - 1)"
      "unat n < length y" "y' = y[unat n := interpolate q1]" "n' = n + 1"
      "del q1 = del q" "tau q1 = tau q" "npfb q1 = npfb q" "update_timing_state q1 = Inr q2"
      "state q' = RESAMP_STATE_INTERP" "del q' = del q2" "tau q' = tau q2" "b q' = b q2"
      "npfb q' = npfb q2"
proof (cases "state q = RESAMP_STATE_INTERP \<and> b q = npfb q - 1")
  case True
  then show ?thesis
    using assms flip by (auto simp: resamp_iter_def bnd_eq_Inr)
next
  case False
  show ?thesis
  proof (cases "state q = RESAMP_STATE_INTERP")
    case True
    with False have ne: "b q \<noteq> npfb q - 1" by simp
    from assms True ne obtain v0 v1 q2 where
      s: "unat n < length y" "y' = y[unat n := interpolate (q\<lparr>y0 := v0, y1 := v1\<rparr>)]" "n' = n + 1"
      and u: "update_timing_state (q\<lparr>y0 := v0, y1 := v1\<rparr>) = Inr q2" and q': "q' = q2"
      by (auto simp: resamp_iter_def bnd_eq_Inr store_def Let_def split: if_splits)
    show ?thesis
      using False s u True update_fields(3) [OF u]
      by (intro emit [of "q\<lparr>y0 := v0, y1 := v1\<rparr>" q2]) (simp_all add: q')
  next
    case B: False
    from assms B obtain v1 q2 where
      s: "unat n < length y" "y' = y[unat n := interpolate (q\<lparr>y1 := v1\<rparr>)]" "n' = n + 1"
      and u: "update_timing_state (q\<lparr>y1 := v1\<rparr>) = Inr q2"
      and q': "q' = q2\<lparr>state := RESAMP_STATE_INTERP\<rparr>"
      by (auto simp: resamp_iter_def bnd_eq_Inr store_def Let_def split: if_splits)
    show ?thesis
      using False s u
      by (intro emit [of "q\<lparr>y1 := v1\<rparr>" q2]) (simp_all add: q')
  qed
qed

lemma iter_Inl:
  assumes "resamp_iter cfg q y n = Inl e"
  shows "e \<noteq> Out_Of_Fuel" and "e = Buffer_Overflow \<Longrightarrow> length y \<le> unat n"
proof -
  have "avoids Out_Of_Fuel (resamp_iter cfg q y n)"
    by (rule avoids_iter) (simp_all add: loop_fault_def)
  then show "e \<noteq> Out_Of_Fuel"
    using assms by (auto simp: avoids_def)
  have "unat n < length y \<Longrightarrow> avoids Buffer_Overflow (resamp_iter cfg q y n)"
    by (rule avoids_iter) (simp_all add: loop_fault_def)
  then show "e = Buffer_Overflow \<Longrightarrow> length y \<le> unat n"
    using assms by (cases "unat n < length y") (auto simp: avoids_def)
qed

lemma int_le_div_iff:
  fixes a c n :: int
  assumes "0 < c"
  shows "n \<le> a div c \<longleftrightarrow> n * c \<le> a"
proof
  assume "n \<le> a div c"
  then have "n * c \<le> (a div c) * c"
    using assms by (intro mult_right_mono) auto
  also have "\<dots> \<le> a"
    using assms by (metis div_mult_mod_eq le_add_same_cancel1 pos_mod_sign)
  finally show "n * c \<le> a" .
next
  assume "n * c \<le> a"
  then have "(n * c) div c \<le> a div c"
    using assms by (intro zdiv_mono1)
  then show "n \<le> a div c"
    using assms by simp
qed

lemma int_div_less_iff:
  fixes a c n :: int
  assumes "0 < c"
  shows "a div c < n \<longleftrightarrow> a < n * c"
  using int_le_div_iff [OF assms, of n a] by linarith

lemma int_div_sub_mult:
  fixes a c n :: int
  assumes "c \<noteq> 0"
  shows "(a - n * c) div c = a div c - n"
  using div_mult_self1 [OF assms, of a "- n"] by simp

lemma mult_less_cancel_pos:
  fixes a c n :: int
  assumes "0 < n" "a * n < c * n"
  shows "a < c"
  using assms by (simp add: mult_less_cancel_right)

lemma mult_le_cancel_pos:
  fixes a c n :: int
  assumes "0 < n" "a * n \<le> c * n"
  shows "a \<le> c"
  using assms by (simp add: mult_le_cancel_right)

lemma rebase_timed:
  assumes "loop_timed k D T q" "\<not> b q < npfb q"
  shows "timed k D (T - 2 ^ k) (resamp_rebase q)"
proof -
  let ?N = "uint (npfb q)"
  let ?c = "(2 :: int) ^ k"
  from assms(1) have d: "del q = Fin (of_int D / 2 ^ k)" and t: "tau q = Fin (of_int T / 2 ^ k)"
    and D: "0 < D" "?c \<le> D * ?N" "(?c + D) * ?N < 2 ^ 24" and TN: "T * ?N < 2 ^ 24"
    by (simp_all add: loop_timed_def)
  note f = timed_facts [OF D]
  have c0: "0 < ?c" by simp
  have ge: "?N \<le> uint (b q)"
    using assms(2) by (simp add: word_less_alt)
  have T0: "0 \<le> T \<and> (state q = RESAMP_STATE_INTERP \<longrightarrow> ?c \<le> T)
      \<and> (state q \<noteq> RESAMP_STATE_INTERP \<longrightarrow> b q = npfb q \<and> T < ?c \<and> - ?c \<le> (T - ?c) * ?N)"
  proof (cases "state q = RESAMP_STATE_INTERP")
    case True
    then have "uint (b q) = T * ?N div ?c"
      using assms(1) by (simp add: loop_timed_def)
    then have "?N * ?c \<le> T * ?N"
      using ge int_le_div_iff [OF c0, of ?N "T * ?N"] by simp
    then have "?c * ?N \<le> T * ?N"
      by (simp add: mult.commute)
    then have cT: "?c \<le> T"
      using f(1) by (rule mult_le_cancel_pos [rotated])
    then have "0 \<le> T"
      using c0 by linarith
    then show ?thesis
      using True cT by simp
  next
    case False
    have "b q \<noteq> 0"
      using ge f(1) by auto
    then have e: "b q = npfb q" "(?N - 1) * ?c \<le> T * ?N" "T * ?N < ?N * ?c"
      using assms(1) False by (auto simp: loop_timed_def)
    have "T * ?N < ?c * ?N"
      using e(3) by (simp add: mult.commute)
    then have l: "T < ?c"
      using f(1) by (rule mult_less_cancel_pos [rotated])
    have "0 \<le> (?N - 1) * ?c"
      using f(1) by simp
    then have "0 * ?N \<le> T * ?N"
      using e(2) by linarith
    then have "0 \<le> T"
      using f(1) by (rule mult_le_cancel_pos [rotated])
    moreover have "- ?c \<le> (T - ?c) * ?N"
      using e(2) by (simp add: algebra_simps)
    ultimately show ?thesis
      using False e(1) l by simp
  qed
  have Tn: "0 \<le> T"
    using T0 by blast
  have "T \<le> T * ?N"
    using mult_left_mono [of 1 ?N T] Tn f(1) by simp
  then have "\<bar>T - ?c\<bar> < 2 ^ 24"
    using TN Tn f(5) c0 by linarith
  then have "fp_of_rat binary32 (of_int (T - ?c) / 2 ^ k) = Fin (of_int (T - ?c) / 2 ^ k)"
    using f(3) by (intro grid_exact) simp_all
  moreover have "(of_int (T - ?c) / 2 ^ k :: rat) = of_int T / 2 ^ k - 1"
    by (simp add: diff_divide_distrib)
  ultimately have tau': "fp_sub binary32 (tau q) (Fin 1) = Fin (of_int (T - ?c) / 2 ^ k)"
    by (simp add: t fp_sub_def)
  have "(T - ?c) * ?N \<le> T * ?N"
    using f(1) c0 by (simp add: mult_right_mono)
  then have TN': "(T - ?c) * ?N < 2 ^ 24"
    using TN by linarith
  have ub: "uint (b q - npfb q) = uint (b q) - ?N"
    using ge by (simp add: uint_sub_lem [symmetric])
  have st: "if state q = RESAMP_STATE_INTERP
      then 0 \<le> T - ?c \<and> uint (b q - npfb q) = (T - ?c) * ?N div ?c
      else b q - npfb q = 0 \<and> - ?c \<le> (T - ?c) * ?N \<and> T - ?c < 0"
  proof (cases "state q = RESAMP_STATE_INTERP")
    case True
    then have "uint (b q) = T * ?N div ?c"
      using assms(1) by (simp add: loop_timed_def)
    moreover have "(T - ?c) * ?N div ?c = T * ?N div ?c - ?N"
      using int_div_sub_mult [of ?c "T * ?N" ?N] by (simp add: algebra_simps)
    ultimately show ?thesis
      using True T0 ub by simp
  next
    case False
    then show ?thesis
      using T0 by simp
  qed
  show ?thesis
    unfolding timed_def using d D tau' TN' st
    by (cases "state q = RESAMP_STATE_INTERP") (simp_all add: resamp_rebase_def Let_def)
qed

lemma pass_timed:
  assumes L: "loop_timed k D T q" and lt: "b q < npfb q"
    and it: "resamp_iter cfg q y n = Inr (q', y', n')"
  shows "(loop_timed k D T q' \<and> \<not> b q' < npfb q' \<and> n' = n \<and> y' = y)
       \<or> (loop_timed k D (T + D) q' \<and> T < 2 ^ k \<and> unat n < length y \<and> n' = n + 1
           \<and> length y' = length y)"
proof -
  let ?N = "uint (npfb q)"
  let ?c = "(2 :: int) ^ k"
  from L have d: "del q = Fin (of_int D / 2 ^ k)" and t: "tau q = Fin (of_int T / 2 ^ k)"
    and D: "0 < D" "?c \<le> D * ?N" "(?c + D) * ?N < 2 ^ 24" and TN: "T * ?N < 2 ^ 24"
    by (simp_all add: loop_timed_def)
  note f = timed_facts [OF D]
  have c0: "0 < ?c" by simp
  have bl: "uint (b q) < ?N"
    using lt by (simp add: word_less_alt)
  from it show ?thesis
  proof (cases rule: iter_Inr)
    case (flip v0)
    have "uint (1 :: 32 word) \<le> ?N"
      using f(1) by simp
    then have "uint (npfb q - 1) = ?N - uint (1 :: 32 word)"
      by (rule uint_sub_lem [THEN iffD1])
    then have "uint (npfb q - 1) = ?N - 1"
      by simp
    then have u: "T * ?N div ?c = ?N - 1"
      using L flip(1,2) by (simp add: loop_timed_def)
    have 1: "(?N - 1) * ?c \<le> T * ?N"
      using int_le_div_iff [OF c0, of "?N - 1" "T * ?N"] u by simp
    have 2: "T * ?N < ?N * ?c"
      using int_div_less_iff [OF c0, of "T * ?N" ?N] u by simp
    have "loop_timed k D T q'"
      unfolding loop_timed_def using d t D TN 1 2 by (simp add: flip(3))
    then show ?thesis
      using flip by simp
  next
    case (emit q1 q2)
    have Tc: "T < ?c \<and> 0 \<le> T + D"
    proof (cases "state q = RESAMP_STATE_INTERP")
      case True
      then have T0: "0 \<le> T" and u: "uint (b q) = T * ?N div ?c"
        using L by (simp_all add: loop_timed_def)
      have "T * ?N < ?N * ?c"
        using int_div_less_iff [OF c0, of "T * ?N" ?N] u bl by simp
      then have "T * ?N < ?c * ?N"
        by (simp add: mult.commute)
      then have "T < ?c"
        using f(1) by (rule mult_less_cancel_pos [rotated])
      then show ?thesis
        using T0 D(1) by simp
    next
      case False
      have "b q \<noteq> npfb q"
        using lt by auto
      then have e: "- ?c \<le> T * ?N" "T < 0"
        using L False by (auto simp: loop_timed_def)
      have "0 * ?N \<le> (T + D) * ?N"
        using e(1) D(2) by (simp add: algebra_simps)
      then have "0 \<le> T + D"
        using f(1) by (rule mult_le_cancel_pos [rotated])
      moreover have "T < ?c"
        using e(2) c0 by linarith
      ultimately show ?thesis by simp
    qed
    have "\<exists>m c. update_timing_state q1 =
           Inr (q1\<lparr>tau := Fin (of_int (T + D) / 2 ^ k), bf := c,
                  b := word_of_int ((T + D) * uint (npfb q1) div 2 ^ k), mu := m\<rparr>)
         \<and> (T + D) * uint (npfb q1) < 2 ^ 24
         \<and> uint (word_of_int ((T + D) * uint (npfb q1) div 2 ^ k) :: 32 word)
             = (T + D) * uint (npfb q1) div 2 ^ k"
      using Tc d t D by (intro update_exact) (simp_all add: emit)
    then obtain m c where q2: "q2 = q1\<lparr>tau := Fin (of_int (T + D) / 2 ^ k), bf := c,
                  b := word_of_int ((T + D) * ?N div 2 ^ k), mu := m\<rparr>"
      and b1: "(T + D) * ?N < 2 ^ 24"
      and u: "uint (word_of_int ((T + D) * ?N div 2 ^ k) :: 32 word) = (T + D) * ?N div 2 ^ k"
      using emit(8) by (auto simp: emit(7))
    have "loop_timed k D (T + D) q'"
      unfolding loop_timed_def using d D b1 u Tc
      by (simp add: emit q2)
    then show ?thesis
      using Tc emit by simp
  qed
qed

lemma outs_nonneg: "0 < D \<Longrightarrow> 0 \<le> outs k D T"
  by (simp add: outs_def pos_imp_zdiv_nonneg_iff)

lemma outs_pos: "0 < D \<Longrightarrow> T < 2 ^ k \<Longrightarrow> 1 \<le> outs k D T"
  by (simp add: outs_def pos_imp_zdiv_nonneg_iff)

lemma outs_step:
  assumes "0 < D" "T < 2 ^ k"
  shows "outs k D (T + D) = outs k D T - 1"
proof (cases "T + D < 2 ^ k")
  case True
  have "(2 ^ k - 1 - (T + D)) div D = (2 ^ k - 1 - T) div D - 1"
    using int_div_sub_mult [of D "2 ^ k - 1 - T" 1] assms(1) by (simp add: algebra_simps)
  then show ?thesis
    using True assms(2) by (simp add: outs_def)
next
  case False
  then have "(2 ^ k - 1 - T) div D = 0"
    using assms by (intro div_pos_pos_trivial) auto
  then show ?thesis
    using False assms(2) by (simp add: outs_def)
qed

lemma outs_mono: "0 < D \<Longrightarrow> T \<le> T' \<Longrightarrow> outs k D T' \<le> outs k D T"
  using outs_nonneg [of D k T]
  by (auto simp: outs_def intro!: zdiv_mono1)

lemma head_time:
  assumes L: "loop_timed k D T q" and lt: "b q < npfb q"
  shows "T < 2 ^ k"
proof -
  let ?N = "uint (npfb q)"
  let ?c = "(2 :: int) ^ k"
  from L have D: "0 < D" "?c \<le> D * ?N" "(?c + D) * ?N < 2 ^ 24"
    by (simp_all add: loop_timed_def)
  note f = timed_facts [OF D]
  have c0: "0 < ?c" by simp
  have bl: "uint (b q) < ?N"
    using lt by (simp add: word_less_alt)
  show ?thesis
  proof (cases "state q = RESAMP_STATE_INTERP")
    case True
    then have u: "uint (b q) = T * ?N div ?c"
      using L by (simp_all add: loop_timed_def)
    have "T * ?N < ?N * ?c"
      using int_div_less_iff [OF c0, of "T * ?N" ?N] u bl by simp
    then have "T * ?N < ?c * ?N"
      by (simp add: mult.commute)
    then show "T < ?c"
      using f(1) by (rule mult_less_cancel_pos [rotated])
  next
    case False
    have "b q \<noteq> npfb q"
      using lt by auto
    then have "T < 0"
      using L False by (auto simp: loop_timed_def)
    then show ?thesis
      using c0 by linarith
  qed
qed

lemma loop_timed_bound:
  assumes "loop_timed k D T q" "int (unat n) + outs k D T < 2 ^ 32" "outs k D T + 1 \<le> int fuel"
  shows "(\<exists>e. resamp_loop cfg fuel q y n = Inl e \<and> e \<noteq> Out_Of_Fuel
            \<and> (e = Buffer_Overflow \<longrightarrow> int (length y) < int (unat n) + outs k D T))
       \<or> (\<exists>q' y' n' j. resamp_loop cfg fuel q y n = Inr (q', y', n') \<and> unat n' = unat n + j
            \<and> int j \<le> outs k D T \<and> loop_timed k D (T + int j * D) q' \<and> \<not> b q' < npfb q'
            \<and> (0 < j \<longrightarrow> T + (int j - 1) * D < 2 ^ k) \<and> length y' = length y)"
  using assms
proof (induction fuel arbitrary: q y n T)
  case 0
  have D: "0 < D"
    using 0(1) by (simp add: loop_timed_def)
  have "\<not> b q < npfb q"
  proof
    assume "b q < npfb q"
    then have "1 \<le> outs k D T"
      using head_time [OF 0(1)] D by (intro outs_pos)
    then show False
      using 0(3) by simp
  qed
  then show ?case
    using 0(1) outs_nonneg [OF D, of k T]
    by (intro disjI2 exI [of _ q] exI [of _ y] exI [of _ n] exI [of _ 0]) simp
next
  case (Suc fuel)
  have D: "0 < D"
    using Suc.prems(1) by (simp add: loop_timed_def)
  show ?case
  proof (cases "b q < npfb q")
    case False
    then show ?thesis
      using Suc.prems(1) outs_nonneg [OF D, of k T]
      by (intro disjI2 exI [of _ q] exI [of _ y] exI [of _ n] exI [of _ 0]) (simp add: loop_done)
  next
    case True
    have Tc: "T < 2 ^ k"
      using Suc.prems(1) True by (rule head_time)
    have o1: "1 \<le> outs k D T"
      using D Tc by (rule outs_pos)
    show ?thesis
    proof (cases "resamp_iter cfg q y n")
      case (Inl e)
      have ne: "e \<noteq> Out_Of_Fuel"
        using iter_Inl(1) [OF Inl] .
      have bo: "e = Buffer_Overflow \<longrightarrow> int (length y) < int (unat n) + outs k D T"
      proof
        assume "e = Buffer_Overflow"
        then have "length y \<le> unat n"
          by (rule iter_Inl(2) [OF Inl])
        then have "int (length y) \<le> int (unat n)"
          by (simp only: of_nat_le_iff)
        then show "int (length y) < int (unat n) + outs k D T"
          using o1 by linarith
      qed
      have "resamp_loop cfg (Suc fuel) q y n = Inl e"
        using True Inl by simp
      then show ?thesis
        using ne bo by blast
    next
      case (Inr r)
      obtain q' y' n' where r: "r = (q', y', n')"
        by (cases r) auto
      note it = Inr [unfolded r]
      have step: "resamp_loop cfg (Suc fuel) q y n = resamp_loop cfg fuel q' y' n'"
        using True it by simp
      from pass_timed [OF Suc.prems(1) True it]
      consider (flip) "loop_timed k D T q'" "\<not> b q' < npfb q'" "n' = n" "y' = y"
        | (emit) "loop_timed k D (T + D) q'" "unat n < length y" "n' = n + 1" "length y' = length y"
        by blast
      then show ?thesis
      proof cases
        case flip
        show ?thesis
          unfolding step using flip outs_nonneg [OF D, of k T]
          by (intro disjI2 exI [of _ q'] exI [of _ y] exI [of _ n] exI [of _ 0])
            (simp add: loop_done)
      next
        case emit
        have os: "outs k D (T + D) = outs k D T - 1"
          using D Tc by (rule outs_step)
        have "int (unat n) + 1 < 2 ^ 32"
          using Suc.prems(2) o1 by linarith
        then have "int (unat n + 1) < int (2 ^ 32)"
          by simp
        then have "unat n + 1 < 2 ^ 32"
          by (simp only: of_nat_less_iff)
        then have un: "unat n' = unat n + 1"
          unfolding emit(3) using unat_add_lem [of n 1] by simp
        have p2: "int (unat n') + outs k D (T + D) < 2 ^ 32"
          using Suc.prems(2) by (simp add: un os)
        have p3: "outs k D (T + D) + 1 \<le> int fuel"
          using Suc.prems(3) by (simp add: os)
        from Suc.IH [OF emit(1) p2 p3, of y']
        show ?thesis
        proof (elim disjE exE conjE)
          fix e
          assume "resamp_loop cfg fuel q' y' n' = Inl e" "e \<noteq> Out_Of_Fuel"
            "e = Buffer_Overflow \<longrightarrow> int (length y') < int (unat n') + outs k D (T + D)"
          then show ?thesis
            unfolding step by (intro disjI1 exI [of _ e]) (simp add: un os emit(4))
        next
          fix q'' y'' n'' j
          assume a: "resamp_loop cfg fuel q' y' n' = Inr (q'', y'', n'')" "unat n'' = unat n' + j"
            "int j \<le> outs k D (T + D)" "loop_timed k D (T + D + int j * D) q''"
            "\<not> b q'' < npfb q''" "0 < j \<longrightarrow> T + D + (int j - 1) * D < 2 ^ k"
            "length y'' = length y'"
          have e: "T + D + int j * D = T + int (Suc j) * D"
            by (simp add: algebra_simps)
          have "T + (int (Suc j) - 1) * D < 2 ^ k"
            using a(6) Tc by (cases j) (simp_all add: algebra_simps)
          then show ?thesis
            unfolding step using a un os emit(4)
            by (intro disjI2 exI [of _ q''] exI [of _ y''] exI [of _ n''] exI [of _ "Suc j"])
              (simp add: e)
        qed
      qed
    qed
  qed
qed

lemma timed_loop: "timed k D T q \<Longrightarrow> loop_timed k D T (q\<lparr>pfb := p\<rparr>)"
  by (auto simp: timed_def loop_timed_def)

lemma timed_lower:
  assumes "timed k D T q"
  shows "- D \<le> T"
proof (cases "state q = RESAMP_STATE_INTERP")
  case True
  then show ?thesis
    using assms by (simp add: timed_def)
next
  case False
  let ?N = "uint (npfb q)"
  from assms have D: "0 < D" "2 ^ k \<le> D * ?N" "(2 ^ k + D) * ?N < 2 ^ 24"
    by (simp_all add: timed_def)
  note f = timed_facts [OF D]
  have "- (2 ^ k) \<le> T * ?N"
    using assms False by (simp add: timed_def)
  then have "(- D) * ?N \<le> T * ?N"
    using D(2) by simp
  then show ?thesis
    using f(1) by (rule mult_le_cancel_pos [rotated])
qed

lemma outs_bound:
  assumes "0 < D" "- D \<le> T"
  shows "outs k D T \<le> \<lceil>(2 :: rat) ^ k / of_int D\<rceil> + 1"
proof -
  let ?c = "(2 :: int) ^ k"
  have "outs k D T \<le> outs k D (- D)"
    using assms by (intro outs_mono)
  also have "\<dots> = (?c - 1 + D) div D + 1"
    using assms(1) by (simp add: outs_def) (smt (verit) zero_less_power)
  also have "\<dots> = (?c - 1) div D + 2"
    using assms(1) by simp
  finally have 1: "outs k D T \<le> (?c - 1) div D + 2" .
  have "(of_int ((?c - 1) div D) :: rat) \<le> of_int (?c - 1) / of_int D"
    using floor_divide_of_int_eq [of "?c - 1" D, where ?'a = rat, symmetric] by simp
  also have "\<dots> < of_int ?c / of_int D"
    using assms(1) by (simp add: divide_strict_right_mono)
  also have "\<dots> \<le> of_int \<lceil>(of_int ?c :: rat) / of_int D\<rceil>"
    by (rule le_of_int_ceiling)
  finally have "(?c - 1) div D < \<lceil>(of_int ?c :: rat) / of_int D\<rceil>"
    by (simp only: of_int_less_iff)
  then show ?thesis
    using 1 by simp
qed

lemma outs_small:
  assumes "0 < D" "- D \<le> T" "2 ^ k + D < (2 :: int) ^ 24"
  shows "outs k D T < 2 ^ 25"
proof -
  let ?c = "(2 :: int) ^ k"
  have "(?c - 1 - T) div D \<le> ?c - 1 - T" if "T < ?c"
    using zdiv_mono2 [of "?c - 1 - T" 1 D] assms(1) that by simp
  then show ?thesis
    using assms by (auto simp: outs_def)
qed

lemma execute_timed:
  assumes "timed k D T q" and "\<lceil>(2 :: rat) ^ k / of_int D\<rceil> + 2 \<le> int fuel"
  shows "resamp_q15_execute cfg fuel q x y \<noteq> Inl Out_Of_Fuel
       \<and> (\<lceil>(2 :: rat) ^ k / of_int D\<rceil> + 1 \<le> int (length y) \<longrightarrow>
            resamp_q15_execute cfg fuel q x y \<noteq> Inl Buffer_Overflow)
       \<and> (\<forall>q' y' n. resamp_q15_execute cfg fuel q x y = Inr (q', y', n) \<longrightarrow>
            int (unat n) \<le> \<lceil>(2 :: rat) ^ k / of_int D\<rceil> + 1 \<and> length y' = length y
            \<and> timed k D (T + int (unat n) * D - 2 ^ k) q'
            \<and> (T < D \<longrightarrow> T + int (unat n) * D - 2 ^ k < D))"
proof (cases "firpfb_q31_push (pfb q) (widen x)")
  case (Inl e)
  have "avoids Out_Of_Fuel (firpfb_q31_push (pfb q) (widen x))"
    "avoids Buffer_Overflow (firpfb_q31_push (pfb q) (widen x))"
    by (rule avoids_push, simp add: loop_fault_def)+
  then show ?thesis
    using Inl by (simp add: resamp_q15_execute_def)
next
  case (Inr p)
  let ?N = "uint (npfb q)"
  let ?B = "\<lceil>(2 :: rat) ^ k / of_int D\<rceil> + 1"
  from assms(1) have D: "0 < D" "2 ^ k \<le> D * ?N" "(2 ^ k + D) * ?N < 2 ^ 24"
    by (simp_all add: timed_def)
  note f = timed_facts [OF D]
  have lo: "- D \<le> T"
    using assms(1) by (rule timed_lower)
  have ob: "outs k D T \<le> ?B"
    using D(1) lo by (rule outs_bound)
  have "2 ^ k + D \<le> (2 ^ k + D) * ?N"
    using mult_left_mono [of 1 ?N "2 ^ k + D"] f(1) D(1) by simp
  then have "2 ^ k + D < (2 :: int) ^ 24"
    using D(3) by linarith
  then have "outs k D T < 2 ^ 25"
    using D(1) lo by (intro outs_small)
  then have p2: "int (unat (0 :: 32 word)) + outs k D T < 2 ^ 32"
    by simp
  have p3: "outs k D T + 1 \<le> int fuel"
    using ob assms(2) by linarith
  have e: "resamp_q15_execute cfg fuel q x y =
      bnd (resamp_loop cfg fuel (q\<lparr>pfb := p\<rparr>) y 0) (\<lambda>(q1, y', n). Inr (resamp_rebase q1, y', n))"
    using Inr by (simp add: resamp_q15_execute_def)
  from loop_timed_bound [OF timed_loop [OF assms(1)] p2 p3, of cfg p y]
  show ?thesis
  proof (elim disjE exE conjE)
    fix e'
    assume a: "resamp_loop cfg fuel (q\<lparr>pfb := p\<rparr>) y 0 = Inl e'" "e' \<noteq> Out_Of_Fuel"
      "e' = Buffer_Overflow \<longrightarrow> int (length y) < int (unat (0 :: 32 word)) + outs k D T"
    show ?thesis
      unfolding e using a ob by auto
  next
    fix q' y' n' j
    assume a: "resamp_loop cfg fuel (q\<lparr>pfb := p\<rparr>) y 0 = Inr (q', y', n')"
      "unat n' = unat (0 :: 32 word) + j" "int j \<le> outs k D T"
      "loop_timed k D (T + int j * D) q'" "\<not> b q' < npfb q'" "length y' = length y"
      "0 < j \<longrightarrow> T + (int j - 1) * D < 2 ^ k"
    have u: "int j = int (unat n')"
      using a(2) by simp
    have 3: "T + int j * D - 2 ^ k < D" if "T < D"
    proof (cases j)
      case 0
      have "(0 :: int) < 2 ^ k" by simp
      then have "T - 2 ^ k < D"
        using that by linarith
      then show ?thesis
        by (simp add: 0)
    next
      case (Suc i)
      then show ?thesis
        using a(7) by (simp add: algebra_simps)
    qed
    have 2: "timed k D (T + int j * D - 2 ^ k) (resamp_rebase q')"
      using a(4,5) by (rule rebase_timed)
    have 1: "int j \<le> ?B"
      using a(3) ob by linarith
    show ?thesis
      unfolding e a(1) using 1 2 3 a(6) unfolding u by simp
  qed
qed

lemma run_timed:
  assumes "timed k D T q" "T < D" "\<lceil>(2 :: rat) ^ k / of_int D\<rceil> + 2 \<le> int fuel"
    "\<lceil>(2 :: rat) ^ k / of_int D\<rceil> + 1 \<le> int len"
  shows "resamp_run cfg fuel len q xs \<noteq> Inl Out_Of_Fuel
       \<and> resamp_run cfg fuel len q xs \<noteq> Inl Buffer_Overflow
       \<and> (\<forall>q' c. resamp_run cfg fuel len q xs = Inr (q', c) \<longrightarrow>
            timed k D (T + int c * D - int (length xs) * 2 ^ k) q'
            \<and> T + int c * D - int (length xs) * 2 ^ k < D)"
  using assms(1,2)
proof (induction xs arbitrary: q T)
  case Nil
  then show ?case by simp
next
  case (Cons x xs)
  let ?y = "replicate len (Fin 0, Fin 0) :: cfloat list"
  note E = execute_timed [OF Cons.prems(1) assms(3), of cfg x ?y]
  show ?case
  proof (cases "resamp_q15_execute cfg fuel q x ?y")
    case (Inl e)
    then show ?thesis
      using E assms(4) by auto
  next
    case (Inr r)
    obtain q1 y1 n where r: "r = (q1, y1, n)"
      by (cases r) auto
    let ?T1 = "T + int (unat n) * D - 2 ^ k"
    have t1: "timed k D ?T1 q1" "?T1 < D"
      using E Inr Cons.prems(2) unfolding r by blast+
    note I = Cons.IH [OF t1]
    have s: "resamp_run cfg fuel len q (x # xs) =
        bnd (resamp_run cfg fuel len q1 xs) (\<lambda>(q2, c). Inr (q2, unat n + c))"
      using Inr r by simp
    show ?thesis
    proof (cases "resamp_run cfg fuel len q1 xs")
      case (Inl e)
      then show ?thesis
        unfolding s using I by auto
    next
      case R: (Inr r2)
      obtain q2 c where r2: "r2 = (q2, c)"
        by (cases r2) auto
      have e: "?T1 + int c * D - int (length xs) * 2 ^ k
          = T + int (unat n + c) * D - int (length (x # xs)) * 2 ^ k"
        by (simp add: algebra_simps)
      from I R r2 have "timed k D (?T1 + int c * D - int (length xs) * 2 ^ k) q2"
        "?T1 + int c * D - int (length xs) * 2 ^ k < D"
        by blast+
      then have "timed k D (T + int (unat n + c) * D - int (length (x # xs)) * 2 ^ k) q2"
        "T + int (unat n + c) * D - int (length (x # xs)) * 2 ^ k < D"
        unfolding e .
      then show ?thesis
        unfolding s using R r2 by simp
    qed
  qed
qed

section \<open>Concrete runs: auxiliary facts\<close>

lemma demo_fast_rate: "resamp_q15_set_rate demo_resamp (Fin 2) = demo_fast"
  by (simp add: resamp_q15_set_rate_def demo_fast_def fp_eval)

lemma demo_fast_sel:
  "rate demo_fast = Fin 2" "del demo_fast = Fin (1 / 2)" "tau demo_fast = Fin 0"
  "b demo_fast = 0" "mu demo_fast = Fin 0" "npfb demo_fast = 2"
  "pfb demo_fast = demo_bank" "state demo_fast = RESAMP_STATE_INTERP"
  by (simp_all add: demo_fast_def demo_resamp_sel)

lemma list3: "replicate 3 x = [x, x, x]"
  by (simp add: numeral_3_eq_3)

lemma four: "(4 :: nat) = Suc (Suc (Suc (Suc 0)))"
  by simp

lemma demo_fast_iter1:
  "resamp_iter cfg_portable (demo_fast\<lparr>pfb := demo_pushed\<rparr>) [z, z, z] 0
     = Inr (demo_last, [(Fin (1 / 524288), Fin 0), z, z], 1)"
  by (simp add: resamp_iter_def demo_exec0 demo_exec1 demo_fast_sel store_def
      interp_mu0 [where u = "1 / 524288" and v = "1 / 524288"] cq31_12288 fp32_small update_half)
    (simp add: demo_fast_def demo_resamp_def demo_last_def)

lemma demo_fast_iter2:
  "resamp_iter cfg_portable demo_last ys n
     = Inr (demo_last\<lparr>state := RESAMP_STATE_BOUNDARY, b := 2\<rparr>, ys, n)"
  by (simp add: resamp_iter_def demo_exec1 demo_last_def)

lemma demo_last_rebase:
  "resamp_rebase (demo_last\<lparr>state := RESAMP_STATE_BOUNDARY, b := 2\<rparr>) = demo_boundary"
  by (simp add: resamp_rebase_def demo_last_def demo_boundary_def uword_to_fp_def fp_sub_def fp_eval)

lemma demo_fast_call:
  "resamp_q15_execute cfg_portable 4 demo_fast (1, 0) [z, z, z]
     = Inr (demo_boundary, [(Fin (1 / 524288), Fin 0), z, z], 1)"
proof -
  have "resamp_loop cfg_portable 4 (demo_fast\<lparr>pfb := demo_pushed\<rparr>) [z, z, z] 0
      = Inr (demo_last\<lparr>state := RESAMP_STATE_BOUNDARY, b := 2\<rparr>, [(Fin (1 / 524288), Fin 0), z, z], 1)"
    unfolding four
    by (subst loop_step [OF _ demo_fast_iter1], simp add: demo_fast_sel,
        subst loop_step [OF _ demo_fast_iter2], simp add: demo_last_def,
        subst loop_done, simp_all add: demo_last_def)
  then show ?thesis
    by (simp add: resamp_q15_execute_def demo_fast_sel demo_push1 demo_last_rebase)
qed

lemma demo_boundary_iter1:
  "resamp_iter cfg_portable (demo_boundary\<lparr>pfb := demo_pushed2\<rparr>) [z, z, z] 0
     = Inr (demo_boundary\<lparr>pfb := demo_pushed2, y1 := (12288, 0), tau := Fin 0, bf := Fin 0, b := 0,
              mu := Fin 0, state := RESAMP_STATE_INTERP\<rparr>,
            [(Fin (1 / 524288), Fin 0), z, z], 1)"
  by (simp add: resamp_iter_def demo_exec2 demo_boundary_sel store_def
      interp_mu0 [where u = "1 / 524288" and v = "3 / 524288"] cq31_12288 fp32_small
      update_timing_state_def uword_to_fp_def fp_sub_def fp_eval)

lemma demo_boundary_iter2:
  "resamp_iter cfg_portable
     (demo_boundary\<lparr>pfb := demo_pushed2, y1 := (12288, 0), tau := Fin 0, bf := Fin 0, b := 0,
        mu := Fin 0, state := RESAMP_STATE_INTERP\<rparr>)
     [w, z, z] 1
   = Inr (demo_boundary\<lparr>pfb := demo_pushed2, y0 := (12288, 0), y1 := (12288, 0), tau := Fin (1 / 2),
            bf := Fin 1, b := 1, mu := Fin 0, state := RESAMP_STATE_INTERP\<rparr>,
          [w, (Fin (3 / 524288), Fin 0), z], 2)"
  by (simp add: resamp_iter_def demo_exec2 demo_boundary_sel store_def
      interp_mu0 [where u = "3 / 524288" and v = "3 / 524288"] cq31_12288 fp32_small update_half)

lemma demo_boundary2_rebase:
  "resamp_rebase (demo_boundary\<lparr>pfb := demo_pushed2, y0 := (12288, 0), y1 := (12288, 0),
        tau := Fin (1 / 2), bf := Fin 1, b := 2\<rparr>) = demo_boundary2"
  by (simp add: resamp_rebase_def demo_boundary_def demo_boundary2_def uword_to_fp_def fp_sub_def
      fp_eval)

lemma demo_boundary_call:
  "resamp_q15_execute cfg_portable 4 demo_boundary (2, 0) [z, z, z]
     = Inr (demo_boundary2, [(Fin (1 / 524288), Fin 0), (Fin (3 / 524288), Fin 0), z], 2)"
proof -
  have "resamp_loop cfg_portable 4 (demo_boundary\<lparr>pfb := demo_pushed2\<rparr>) [z, z, z] 0
      = Inr (demo_boundary\<lparr>pfb := demo_pushed2, y0 := (12288, 0), y1 := (12288, 0),
        tau := Fin (1 / 2), bf := Fin 1, b := 2\<rparr>,
        [(Fin (1 / 524288), Fin 0), (Fin (3 / 524288), Fin 0), z], 2)"
    unfolding four
    by (subst loop_step [OF _ demo_boundary_iter1], simp add: demo_boundary_sel,
        subst loop_step [OF _ demo_boundary_iter2], simp add: demo_boundary_sel,
        subst loop_step [OF _ demo_iterB], simp add: demo_boundary_sel,
        subst loop_done, simp_all add: demo_boundary_sel)
  then show ?thesis
    by (simp add: resamp_q15_execute_def demo_boundary_sel demo_push2 demo_boundary2_rebase)
qed

lemma demo_fast_timed: "timed 1 1 0 demo_fast"
  by (simp add: timed_def demo_fast_sel)

lemma demo_boundary_timed: "timed 1 1 (- 1) demo_boundary"
  by (simp add: timed_def demo_boundary_sel)

lemma demo_run:
  "resamp_run cfg_portable 4 3 demo_fast [(1, 0), (2, 0)] = Inr (demo_boundary2, 3)"
  by (simp add: list3 demo_fast_call demo_boundary_call)

lemma demo_slow_rate:
  "resamp_q15_set_rate demo_resamp (Fin (13421773 / 16777216))
     = demo_resamp\<lparr>rate := Fin (13421773 / 16777216), del := Fin (5 / 4)\<rparr>"
  by (simp add: resamp_q15_set_rate_def fp_eval)

lemma update_slow:
  "tau q = Fin 0 \<Longrightarrow> del q = Fin (5 / 4) \<Longrightarrow> npfb q = 2 \<Longrightarrow>
   update_timing_state q = Inr (q\<lparr>tau := Fin (5 / 4), bf := Fin (5 / 2), b := 2, mu := Fin (1 / 2)\<rparr>)"
  by (simp add: update_timing_state_def uword_to_fp_def fp_sub_def fp_eval)

lemma demo_slow_iter:
  "resamp_iter cfg_portable
     (demo_resamp\<lparr>rate := Fin (13421773 / 16777216), del := Fin (5 / 4), pfb := demo_pushed\<rparr>)
     [z, z] 0
   = Inr (demo_resamp\<lparr>rate := Fin (13421773 / 16777216), del := Fin (5 / 4), pfb := demo_pushed,
            y0 := (4096, 0), y1 := (4096, 0), tau := Fin (5 / 4), bf := Fin (5 / 2), b := 2,
            mu := Fin (1 / 2)\<rparr>, [(Fin (1 / 524288), Fin 0), z], 1)"
  by (simp add: resamp_iter_def demo_exec0 demo_exec1 demo_resamp_sel store_def
      interp_mu0 [where u = "1 / 524288" and v = "1 / 524288"] cq31_12288 fp32_small update_slow)

lemma demo_slow_rebase:
  "resamp_rebase (demo_resamp\<lparr>rate := Fin (13421773 / 16777216), del := Fin (5 / 4), pfb := demo_pushed,
            y0 := (4096, 0), y1 := (4096, 0), tau := Fin (5 / 4), bf := Fin (5 / 2), b := 2,
            mu := Fin (1 / 2)\<rparr>) = demo_quarter"
  by (simp add: resamp_rebase_def demo_resamp_def demo_quarter_def uword_to_fp_def fp_sub_def fp_eval)

lemma demo_slow_call:
  "resamp_q15_execute cfg_portable 2 (resamp_q15_set_rate demo_resamp (Fin (13421773 / 16777216)))
     (1, 0) [z, z] = Inr (demo_quarter, [(Fin (1 / 524288), Fin 0), z], 1)"
proof -
  have "resamp_loop cfg_portable 2
      (demo_resamp\<lparr>rate := Fin (13421773 / 16777216), del := Fin (5 / 4), pfb := demo_pushed\<rparr>)
      [z, z] 0
    = Inr (demo_resamp\<lparr>rate := Fin (13421773 / 16777216), del := Fin (5 / 4), pfb := demo_pushed,
            y0 := (4096, 0), y1 := (4096, 0), tau := Fin (5 / 4), bf := Fin (5 / 2), b := 2,
            mu := Fin (1 / 2)\<rparr>, [(Fin (1 / 524288), Fin 0), z], 1)"
    unfolding numeral_2_eq_2
    by (subst loop_step [OF _ demo_slow_iter], simp add: demo_resamp_sel,
        subst loop_done, simp_all add: demo_resamp_sel)
  then show ?thesis
    by (simp add: resamp_q15_execute_def demo_slow_rate demo_resamp_sel demo_push1 demo_slow_rebase)
qed

lemma demo_stuck_rate:
  "resamp_q15_set_rate demo_quarter (Fin 67108864)
     = demo_quarter\<lparr>rate := Fin 67108864, del := Fin (1 / 67108864)\<rparr>"
  by (simp add: resamp_q15_set_rate_def fp_eval)

lemma floor_rat_one_numeral [simp]: "\<lfloor>1 / numeral v :: rat\<rfloor> = 1 div numeral v"
  using floor_divide_of_int_eq [of 1 "numeral v", where ?'a = rat] by simp

lemma update_stuck:
  "tau q = Fin (1 / 4) \<Longrightarrow> del q = Fin (1 / 67108864) \<Longrightarrow> npfb q = 2 \<Longrightarrow>
   update_timing_state q = Inr (q\<lparr>tau := Fin (1 / 4), bf := Fin (1 / 2), b := 0, mu := Fin (1 / 2)\<rparr>)"
  by (simp add: update_timing_state_def uword_to_fp_def fp_sub_def fp_eval)

lemma interp_half:
  "mu q = Fin (1 / 2) \<Longrightarrow> y0 q = (12288, 0) \<Longrightarrow> y1 q = (12288, 0)
   \<Longrightarrow> interpolate q = (Fin (3 / 524288), Fin 0)"
  by (simp add: interpolate_def cscale_def cadd_def fp_sub_def cq31_12288 fp_eval)

lemma demo_stuck_first:
  assumes "0 < length y"
  shows "resamp_iter cfg_portable
     (demo_quarter\<lparr>rate := Fin 67108864, del := Fin (1 / 67108864), pfb := demo_pushed2\<rparr>) y 0
     = Inr (demo_stuck, y[0 := (Fin (3 / 524288), Fin 0)], 1)"
  using assms
  by (simp add: resamp_iter_def demo_exec2 demo_quarter_def store_def interp_half update_stuck
      demo_stuck_def)

lemma demo_stuck_iter:
  "resamp_iter cfg_portable demo_stuck y n
     = (if unat n < length y then Inr (demo_stuck, y[unat n := (Fin (3 / 524288), Fin 0)], n + 1)
        else Inl Buffer_Overflow)"
  by (simp add: resamp_iter_def demo_exec2 demo_stuck_def store_def interp_half update_stuck)

lemma demo_stuck_never:
  "\<exists>e. resamp_loop cfg_portable fuel demo_stuck y n = Inl e"
proof (induction fuel arbitrary: y n)
  case 0
  then show ?case by (simp add: demo_stuck_def)
next
  case (Suc fuel)
  have "b demo_stuck < npfb demo_stuck"
    by (simp add: demo_stuck_def)
  then show ?case
    using Suc [of "y[unat n := (Fin (3 / 524288), Fin 0)]" "n + 1"]
    by (auto simp: demo_stuck_iter)
qed

lemma demo_stuck_overflow:
  assumes "unat n \<le> length y" "length y < 2 ^ 32" "length y - unat n < fuel"
  shows "resamp_loop cfg_portable fuel demo_stuck y n = Inl Buffer_Overflow"
  using assms
proof (induction fuel arbitrary: y n)
  case 0
  then show ?case by simp
next
  case (Suc fuel)
  have lt: "b demo_stuck < npfb demo_stuck"
    by (simp add: demo_stuck_def)
  show ?case
  proof (cases "unat n < length y")
    case True
    then have "unat n + 1 < 2 ^ 32"
      using Suc.prems(2) by simp
    then have u: "unat (n + 1) = unat n + 1"
      using unat_add_lem [of n 1] by simp
    have "resamp_loop cfg_portable fuel demo_stuck (y[unat n := (Fin (3 / 524288), Fin 0)]) (n + 1)
        = Inl Buffer_Overflow"
      using True Suc.prems by (intro Suc.IH) (simp_all add: u)
    then show ?thesis
      using lt True by (simp add: demo_stuck_iter)
  next
    case False
    then show ?thesis
      using lt by (simp add: demo_stuck_iter)
  qed
qed

lemma crawl_rate: "resamp_q15_set_rate demo_resamp (Fin (1 / 33554432)) = crawl 15 0 0 0"
  by (simp add: resamp_q15_set_rate_def crawl_def demo_resamp_def demo_bank_def fp_eval)

lemma next_idx_bounds:
  assumes "15 \<le> unat i" "unat i \<le> 2048"
  shows "16 \<le> unat (next_idx i)" "unat (next_idx i) \<le> 2048"
proof -
  have "unat (i + 1) = unat i + 1"
    using assms(2) unat_add_lem [of i 1] by simp
  moreover have "i \<noteq> 2048 \<Longrightarrow> unat i \<noteq> 2048"
    using word_unat_eq_iff [of i 2048] by simp
  ultimately show "16 \<le> unat (next_idx i)" "unat (next_idx i) \<le> 2048"
    using assms by (auto simp: next_idx_def)
qed

lemma widen_zero: "widen (0, 0) = (0, 0)"
  by (simp add: widen_def)

lemma replicate_update_same: "(replicate n x)[k := x] = replicate n x"
  by (induction n arbitrary: k) (auto split: nat.splits)

lemma crawl_push:
  assumes "15 \<le> unat i" "unat i \<le> 2048"
  shows "firpfb_q31_push (demo_bank\<lparr>idx := i\<rparr>) (0, 0) = Inr (demo_bank\<lparr>idx := next_idx i\<rparr>)"
proof (cases "i = 2048")
  case True
  have w: "(replicate 15 (0, 0) @ replicate 2033 (0, 0) :: cint32_t list) = replicate 2048 (0, 0)"
    by (simp add: replicate_add [symmetric])
  show ?thesis
    unfolding firpfb_q31_push_def
    using firpfb_push_compact [of "demo_bank\<lparr>idx := i\<rparr>" "(0, 0)"] True
    by (simp add: demo_bank_def WINDOW_SIZE_def next_idx_def w replicate_update_same)
next
  case False
  then have "unat i \<noteq> 2048"
    using word_unat_eq_iff [of i 2048] by simp
  then have "unat i < 2048"
    using assms(2) by simp
  then show ?thesis
    unfolding firpfb_q31_push_def
    using firpfb_push_direct [of "demo_bank\<lparr>idx := i\<rparr>" "(0, 0)"] False
    by (simp add: demo_bank_def WINDOW_SIZE_def next_idx_def replicate_update_same)
qed

lemma forM_const: "(\<And>k. k \<in> set ks \<Longrightarrow> f k s = Inr s) \<Longrightarrow> forM ks f s = Inr s"
  by (induction ks) simp_all

lemma zero_term:
  "cadd (Fin 0, Fin 0)
     (cscale (fp_div binary32 (sword_to_fp binary32 (134217728 :: 32 word)) (fp_of_rat binary32 2147483647))
        (cq31_to_cf (0, 0))) = (Fin 0, Fin 0)"
  by (simp add: cadd_def cscale_def cq31_to_cf_def sword_to_fp_def fp_eval)

lemma cf_zero: "cf_to_cq31 (Fin 0, Fin 0) = Inr (0, 0)"
  by (simp add: cf_to_cq31_def fp_eval)

lemma crawl_exec:
  assumes "16 \<le> unat i" "unat i \<le> 2048" "f = 0 \<or> f = 1"
  shows "firpfb_q31_execute cfg_portable (demo_bank\<lparr>idx := i\<rparr>) f = Inr (0, 0)"
proof -
  have u: "unat (i - 16) = unat i - 16"
    using assms(1) by (simp add: unat_sub word_le_nat_alt)
  have c: "unat (f * 2 * 16) = 0 \<or> unat (f * 2 * 16) = 32"
    using assms(3) by auto
  have "forM [0..<16] (\<lambda>k acc.
            bnd (rd (replicate 2048 (0, 0) :: cint32_t list) (unat (i - 16) + k)) (\<lambda>ai.
            bnd (rd (replicate 64 (134217728 :: 32 word)) (unat (f * 2 * 16) + k * 2)) (\<lambda>ci.
            Inr (cadd acc
                  (cscale (fp_div binary32 (sword_to_fp binary32 ci) (fp_of_rat binary32 2147483647))
                          (cq31_to_cf ai))))))
          (Fin 0, Fin 0) = Inr (Fin 0, Fin 0)"
  proof (rule forM_const)
    fix k
    assume "k \<in> set [0..<16]"
    then have k: "k < 16" by simp
    have 1: "unat (i - 16) + k < 2048"
      using u assms(2) k by simp
    have 2: "unat (f * 2 * 16) + k * 2 < 64"
      using c k by auto
    show "bnd (rd (replicate 2048 (0, 0) :: cint32_t list) (unat (i - 16) + k)) (\<lambda>ai.
            bnd (rd (replicate 64 (134217728 :: 32 word)) (unat (f * 2 * 16) + k * 2)) (\<lambda>ci.
            Inr (cadd (Fin 0, Fin 0)
                  (cscale (fp_div binary32 (sword_to_fp binary32 ci) (fp_of_rat binary32 2147483647))
                          (cq31_to_cf ai))))) = Inr (Fin 0, Fin 0)"
      using 1 2 by (simp add: rd_def zero_term)
  qed
  then show ?thesis
    by (simp add: firpfb_q31_execute_def dotprod_q31_def cfg_portable_def dotprod_q31_scalar_def
        demo_bank_def WINDOW_SIZE_def cf_zero)
qed

lemma crawl_sel:
  "rate (crawl i t c B) = Fin (1 / 33554432)" "del (crawl i t c B) = Fin 33554432"
  "tau (crawl i t c B) = Fin t" "bf (crawl i t c B) = Fin c" "b (crawl i t c B) = B"
  "mu (crawl i t c B) = Fin 0" "y0 (crawl i t c B) = (0, 0)" "y1 (crawl i t c B) = (0, 0)"
  "npfb (crawl i t c B) = 2" "pfb (crawl i t c B) = demo_bank\<lparr>idx := i\<rparr>"
  "state (crawl i t c B) = RESAMP_STATE_INTERP"
  by (simp_all add: crawl_def)

lemma two_exact: "uword_to_fp binary32 (2 :: 32 word) = Fin 2"
  by (simp add: uword_to_fp_def fp_eval)

lemma crawl_idle_call:
  assumes "15 \<le> unat i" "unat i \<le> 2048" "2 \<le> unat B"
    and "fp_sub binary32 (Fin t) (Fin 1) = Fin t" "fp_sub binary32 (Fin c) (Fin 2) = Fin c"
  shows "resamp_q15_execute cfg_portable fuel (crawl i t c B) (0, 0) y
           = Inr (crawl (next_idx i) t c (B - 2), y, 0)"
proof -
  have nb: "\<not> B < 2"
    using assms(3) by (simp add: word_less_nat_alt)
  have l: "resamp_loop cfg_portable fuel ((crawl i t c B)\<lparr>pfb := demo_bank\<lparr>idx := next_idx i\<rparr>\<rparr>) y 0
      = Inr ((crawl i t c B)\<lparr>pfb := demo_bank\<lparr>idx := next_idx i\<rparr>\<rparr>, y, 0)"
    using nb by (intro loop_done) (simp add: crawl_sel)
  have r: "resamp_rebase ((crawl i t c B)\<lparr>pfb := demo_bank\<lparr>idx := next_idx i\<rparr>\<rparr>)
      = crawl (next_idx i) t c (B - 2)"
    using assms(4,5) by (simp add: resamp_rebase_def Let_def crawl_def two_exact)
  show ?thesis
    by (simp add: resamp_q15_execute_def crawl_sel widen_zero crawl_push [OF assms(1,2)] l r)
qed

lemma interp_zero:
  "mu q = Fin 0 \<Longrightarrow> y0 q = (0, 0) \<Longrightarrow> y1 q = (0, 0) \<Longrightarrow> interpolate q = (Fin 0, Fin 0)"
  by (simp add: interpolate_def cscale_def cadd_def fp_sub_def cq31_to_cf_def sword_to_fp_def fp_eval)

lemma crawl_emit_call:
  assumes "15 \<le> unat i" "unat i \<le> 2048" "0 < length y"
    and "fp_add binary32 (Fin t) (Fin 33554432) = Fin t'"
    and "fp_mul binary32 (Fin t') (Fin 2) = Fin c'"
    and "fp_to_uword (fp_floor (Fin c')) = Inr B'"
    and "fp_sub binary32 (Fin c') (uword_to_fp binary32 B') = Fin 0"
    and "2 \<le> unat B'"
    and "fp_sub binary32 (Fin t') (Fin 1) = Fin t'" "fp_sub binary32 (Fin c') (Fin 2) = Fin c'"
  shows "resamp_q15_execute cfg_portable (Suc fuel) (crawl i t c 0) (0, 0) y
           = Inr (crawl (next_idx i) t' c' (B' - 2), y[0 := (Fin 0, Fin 0)], 1)"
proof -
  let ?p = "demo_bank\<lparr>idx := next_idx i\<rparr>"
  let ?q = "(crawl i t c 0)\<lparr>pfb := ?p\<rparr>"
  let ?q' = "(crawl i t' c' B')\<lparr>pfb := ?p\<rparr>"
  note nb = next_idx_bounds [OF assms(1,2)]
  have e: "firpfb_q31_execute cfg_portable ?p 0 = Inr (0, 0)"
    "firpfb_q31_execute cfg_portable ?p 1 = Inr (0, 0)"
    using nb by (simp_all add: crawl_exec)
  have u: "update_timing_state ?q = Inr ?q'"
    using assms(4-7)
    by (simp add: update_timing_state_def Let_def crawl_def two_exact)
  have i0: "interpolate (?q\<lparr>y0 := (0, 0), y1 := (0, 0)\<rparr>) = (Fin 0, Fin 0)"
    by (rule interp_zero) (simp_all add: crawl_sel)
  have q0: "?q\<lparr>y0 := (0, 0), y1 := (0, 0)\<rparr> = ?q"
    by (simp add: crawl_def)
  have it: "resamp_iter cfg_portable ?q y 0 = Inr (?q', y[0 := (Fin 0, Fin 0)], 1)"
    using assms(3) i0 u
    by (simp add: resamp_iter_def crawl_sel e store_def Let_def q0)
  have nb': "\<not> B' < 2"
    using assms(8) by (simp add: word_less_nat_alt)
  have l: "resamp_loop cfg_portable (Suc fuel) ?q y 0 = Inr (?q', y[0 := (Fin 0, Fin 0)], 1)"
    using nb' by (subst loop_step [OF _ it], simp add: crawl_sel, subst loop_done)
      (simp_all add: crawl_sel)
  have r: "resamp_rebase ?q' = crawl (next_idx i) t' c' (B' - 2)"
    using assms(9,10) by (simp add: resamp_rebase_def Let_def crawl_def two_exact)
  show ?thesis
    by (simp add: resamp_q15_execute_def crawl_sel widen_zero crawl_push [OF assms(1,2)] l r
        del: resamp_loop.simps)
qed

lemma funpow_idx_bounds:
  assumes "15 \<le> unat i" "unat i \<le> 2048"
  shows "15 \<le> unat ((next_idx ^^ j) i) \<and> unat ((next_idx ^^ j) i) \<le> 2048"
proof (induction j)
  case 0
  then show ?case using assms by simp
next
  case (Suc j)
  then show ?case
    using next_idx_bounds [of "(next_idx ^^ j) i"] by simp
qed

lemma crawl_idle_run:
  assumes "fp_sub binary32 (Fin t) (Fin 1) = Fin t" "fp_sub binary32 (Fin c) (Fin 2) = Fin c"
  shows "15 \<le> unat i \<Longrightarrow> unat i \<le> 2048 \<Longrightarrow> 2 * j \<le> unat B \<Longrightarrow>
         resamp_run cfg_portable fuel len (crawl i t c B) (replicate j (0, 0))
           = Inr (crawl ((next_idx ^^ j) i) t c (B - 2 * of_nat j), 0)"
proof (induction j arbitrary: i B)
  case 0
  then show ?case by simp
next
  case (Suc j)
  have B2: "2 \<le> unat B"
    using Suc.prems(3) by simp
  then have u: "unat (B - 2) = unat B - 2"
    by (simp add: unat_sub word_le_nat_alt)
  note nb = next_idx_bounds [OF Suc.prems(1,2)]
  have "resamp_run cfg_portable fuel len (crawl (next_idx i) t c (B - 2)) (replicate j (0, 0))
      = Inr (crawl ((next_idx ^^ j) (next_idx i)) t c (B - 2 - 2 * of_nat j), 0)"
    using nb Suc.prems(3) u by (intro Suc.IH) simp_all
  moreover have "B - 2 - 2 * of_nat j = B - 2 * of_nat (Suc j)"
    by simp
  ultimately show ?case
    by (simp add: crawl_idle_call [OF Suc.prems(1,2) B2 assms] funpow_swap1)
qed

lemma run_append:
  "resamp_run cfg fuel len q (xs @ ys) =
     bnd (resamp_run cfg fuel len q xs) (\<lambda>(q1, c1).
     bnd (resamp_run cfg fuel len q1 ys) (\<lambda>(q2, c2). Inr (q2, c1 + c2)))"
proof (induction xs arbitrary: q)
  case Nil
  show ?case
    by (cases "resamp_run cfg fuel len q ys") (auto simp: bnd_def split: prod.splits)
next
  case (Cons x xs)
  show ?case
  proof (cases "resamp_q15_execute cfg fuel q x (replicate len (Fin 0, Fin 0))")
    case (Inl e)
    then show ?thesis by simp
  next
    case (Inr r)
    obtain q1 y1 n where r: "r = (q1, y1, n)" by (cases r) auto
    show ?thesis
      using Inr r Cons.IH [of q1]
      by (cases "resamp_run cfg fuel len q1 xs")
        (auto simp: bnd_def split: prod.splits sum.splits)
  qed
qed

lemma crawl_leg:
  assumes "15 \<le> unat i" "unat i \<le> 2048" "0 < len"
    and "fp_add binary32 (Fin t) (Fin 33554432) = Fin t'"
    and "fp_mul binary32 (Fin t') (Fin 2) = Fin c'"
    and "fp_to_uword (fp_floor (Fin c')) = Inr B'"
    and "fp_sub binary32 (Fin c') (uword_to_fp binary32 B') = Fin 0"
    and "2 + 2 * j \<le> unat B'"
    and "fp_sub binary32 (Fin t') (Fin 1) = Fin t'" "fp_sub binary32 (Fin c') (Fin 2) = Fin c'"
  shows "resamp_run cfg_portable (Suc fuel) len (crawl i t c 0) ((0, 0) # replicate j (0, 0))
           = Inr (crawl ((next_idx ^^ j) (next_idx i)) t' c' (B' - 2 - 2 * of_nat j), 1)"
proof -
  have B2: "2 \<le> unat B'"
    using assms(8) by simp
  then have u: "unat (B' - 2) = unat B' - 2"
    by (simp add: unat_sub word_le_nat_alt)
  note nb = next_idx_bounds [OF assms(1,2)]
  have c: "resamp_q15_execute cfg_portable (Suc fuel) (crawl i t c 0) (0, 0) (replicate len (Fin 0, Fin 0))
      = Inr (crawl (next_idx i) t' c' (B' - 2), (replicate len (Fin 0, Fin 0))[0 := (Fin 0, Fin 0)], 1)"
    using assms(3) by (intro crawl_emit_call assms(1,2,4-7,9,10) B2) simp
  have r: "resamp_run cfg_portable (Suc fuel) len (crawl (next_idx i) t' c' (B' - 2)) (replicate j (0, 0))
      = Inr (crawl ((next_idx ^^ j) (next_idx i)) t' c' (B' - 2 - 2 * of_nat j), 0)"
    using nb assms(8) u by (intro crawl_idle_run assms(9,10)) simp_all
  show ?thesis
    by (simp add: c r del: resamp_run.simps(1) replicate.simps)
qed

lemma step1:
  "fp_add binary32 (Fin 0) (Fin 33554432) = Fin 33554432"
  "fp_mul binary32 (Fin 33554432) (Fin 2) = Fin 67108864"
  "fp_to_uword (fp_floor (Fin 67108864)) = Inr (67108864 :: 32 word)"
  "fp_sub binary32 (Fin 67108864) (uword_to_fp binary32 (67108864 :: 32 word)) = Fin 0"
  "fp_sub binary32 (Fin 33554432) (Fin 1) = Fin 33554432"
  "fp_sub binary32 (Fin 67108864) (Fin 2) = Fin 67108864"
  by (simp_all add: uword_to_fp_def fp_sub_def fp_eval)

lemma step2:
  "fp_add binary32 (Fin 33554432) (Fin 33554432) = Fin 67108864"
  "fp_mul binary32 (Fin 67108864) (Fin 2) = Fin 134217728"
  "fp_to_uword (fp_floor (Fin 134217728)) = Inr (134217728 :: 32 word)"
  "fp_sub binary32 (Fin 134217728) (uword_to_fp binary32 (134217728 :: 32 word)) = Fin 0"
  "fp_sub binary32 (Fin 67108864) (Fin 1) = Fin 67108864"
  "fp_sub binary32 (Fin 134217728) (Fin 2) = Fin 134217728"
  by (simp_all add: uword_to_fp_def fp_sub_def fp_eval)

lemma step3:
  "fp_add binary32 (Fin 67108864) (Fin 33554432) = Fin 100663296"
  "fp_mul binary32 (Fin 100663296) (Fin 2) = Fin 201326592"
  "fp_to_uword (fp_floor (Fin 201326592)) = Inr (201326592 :: 32 word)"
  "fp_sub binary32 (Fin 201326592) (uword_to_fp binary32 (201326592 :: 32 word)) = Fin 0"
  "fp_sub binary32 (Fin 100663296) (Fin 1) = Fin 100663296"
  "fp_sub binary32 (Fin 201326592) (Fin 2) = Fin 201326592"
  by (simp_all add: uword_to_fp_def fp_sub_def fp_eval)

lemma split_run:
  "replicate 134217729 x
     = (x # replicate 33554431 x) @ (x # replicate 67108863 x) @ (x # replicate 33554432 x)"
proof -
  have "x # replicate n x = replicate (Suc n) x" for n
    by simp
  then have "(x # replicate 33554431 x) @ (x # replicate 67108863 x) @ (x # replicate 33554432 x)
      = replicate (Suc 33554431 + (Suc 67108863 + Suc 33554432)) x"
    by (simp only: replicate_add)
  also have "Suc 33554431 + (Suc 67108863 + Suc 33554432) = (134217729 :: nat)"
    by simp
  finally show ?thesis by simp
qed

lemma demo_wait_sel:
  "rate demo_wait = Fin (11184811 / 8388608)" "del demo_wait = Fin (3 / 4)"
  "tau demo_wait = Fin (- (1 / 4))" "bf demo_wait = Fin (- (1 / 2))" "b demo_wait = 0"
  "mu demo_wait = Fin (1 / 2)" "y0 demo_wait = (4096, 0)" "y1 demo_wait = (4096, 0)"
  "npfb demo_wait = 2" "pfb demo_wait = demo_pushed" "state demo_wait = RESAMP_STATE_BOUNDARY"
  by (simp_all add: demo_wait_def)

lemma demo_mid_rebase:
  "demo_mid\<lparr>state := RESAMP_STATE_BOUNDARY, b := 2,
        tau := fp_sub binary32 (tau demo_mid) (Fin 1),
        bf := fp_sub binary32 (bf demo_mid) (uword_to_fp binary32 (npfb demo_mid)), b := 0\<rparr>
     = demo_wait"
  by (simp add: demo_mid_def demo_wait_def uword_to_fp_def fp_sub_def fp_eval)

lemma demo_wait_out:
  "(fp_add binary32
      (fp_mul binary32 (fp_sub binary32 (Fin 1) (mu demo_wait)) (fst (cq31_to_cf (y0 demo_wait))))
      (fp_mul binary32 (mu demo_wait) (fst (cq31_to_cf (12288, 0)))),
    fp_add binary32
      (fp_mul binary32 (fp_sub binary32 (Fin 1) (mu demo_wait)) (snd (cq31_to_cf (y0 demo_wait))))
      (fp_mul binary32 (mu demo_wait) (snd (cq31_to_cf (12288, 0)))))
   = (Fin (1 / 262144), Fin 0)"
  by (simp add: demo_wait_sel cq31_12288 fp_sub_def fp_eval)

lemma update_wait:
  "tau q = Fin (- (1 / 4)) \<Longrightarrow> del q = Fin (3 / 4) \<Longrightarrow> npfb q = 2 \<Longrightarrow>
   update_timing_state q = Inr (q\<lparr>tau := Fin (1 / 2), bf := Fin 1, b := 1, mu := Fin 0\<rparr>)"
  by (simp add: update_timing_state_def uword_to_fp_def fp_sub_def fp_eval)

lemma demo_wait_update:
  "update_timing_state (demo_wait\<lparr>pfb := demo_pushed2, y1 := (12288, 0)\<rparr>)
     = Inr (demo_wait\<lparr>pfb := demo_pushed2, y1 := (12288, 0), tau := Fin (1 / 2), bf := Fin 1, b := 1,
              mu := Fin 0\<rparr>)"
  by (subst update_wait) (simp_all add: demo_wait_sel)

lemma demo_wait_flip:
  "resamp_iter cfg_portable
     (demo_wait\<lparr>pfb := demo_pushed2, y1 := (12288, 0), tau := Fin (1 / 2), bf := Fin 1, b := 1,
        mu := Fin 0, state := RESAMP_STATE_INTERP\<rparr>) ys k
   = Inr (demo_wait\<lparr>pfb := demo_pushed2, y0 := (12288, 0), y1 := (12288, 0), tau := Fin (1 / 2),
            bf := Fin 1, b := 2, mu := Fin 0\<rparr>, ys, k)"
  by (simp add: resamp_iter_def demo_exec2 demo_wait_sel)

lemma demo_wait_rest:
  "resamp_loop cfg_portable 1
     (demo_wait\<lparr>pfb := demo_pushed2, y1 := (12288, 0), tau := Fin (1 / 2), bf := Fin 1, b := 1,
        mu := Fin 0, state := RESAMP_STATE_INTERP\<rparr>) ys k
   = Inr (demo_wait\<lparr>pfb := demo_pushed2, y0 := (12288, 0), y1 := (12288, 0), tau := Fin (1 / 2),
            bf := Fin 1, b := 2, mu := Fin 0\<rparr>, ys, k)"
  unfolding One_nat_def
  by (subst loop_step [OF _ demo_wait_flip], simp add: demo_wait_sel, subst loop_done)
    (simp_all add: demo_wait_sel)

lemma demo_wait_final:
  "resamp_rebase (demo_wait\<lparr>pfb := demo_pushed2, y0 := (12288, 0), y1 := (12288, 0),
        tau := Fin (1 / 2), bf := Fin 1, b := 2, mu := Fin 0\<rparr>)
     = demo_wait\<lparr>pfb := demo_pushed2, y0 := (12288, 0), y1 := (12288, 0), tau := Fin (- (1 / 2)),
         bf := Fin (- 1), mu := Fin 0\<rparr>"
  by (simp add: resamp_rebase_def demo_wait_def uword_to_fp_def fp_sub_def fp_eval)

lemma floor_rat_neg_one_numeral [simp]: "\<lfloor>- (1 / numeral v) :: rat\<rfloor> = - 1 div numeral v"
  using floor_divide_of_int_eq [of "- 1" "numeral v", where ?'a = rat] by simp

lemma demo_hasty_rate:
  "resamp_q15_set_rate demo_resamp (Fin 4) = demo_resamp\<lparr>rate := Fin 4, del := Fin (1 / 4)\<rparr>"
  by (simp add: resamp_q15_set_rate_def fp_eval)

lemma demo_hasty_sel:
  "rate demo_hasty = Fin 4" "del demo_hasty = Fin (1 / 4)" "tau demo_hasty = Fin (- (1 / 2))"
  "bf demo_hasty = Fin (- 1)" "b demo_hasty = 0" "mu demo_hasty = Fin 0"
  "y0 demo_hasty = (4096, 0)" "y1 demo_hasty = (4096, 0)" "npfb demo_hasty = 2"
  "pfb demo_hasty = demo_pushed" "state demo_hasty = RESAMP_STATE_BOUNDARY"
  by (simp_all add: demo_hasty_def)

lemma update_hasty1:
  "tau q = Fin 0 \<Longrightarrow> del q = Fin (1 / 4) \<Longrightarrow> npfb q = 2 \<Longrightarrow>
   update_timing_state q = Inr (q\<lparr>tau := Fin (1 / 4), bf := Fin (1 / 2), b := 0, mu := Fin (1 / 2)\<rparr>)"
  by (simp add: update_timing_state_def uword_to_fp_def fp_sub_def fp_eval)

lemma update_hasty2:
  "tau q = Fin (1 / 4) \<Longrightarrow> del q = Fin (1 / 4) \<Longrightarrow> npfb q = 2 \<Longrightarrow>
   update_timing_state q = Inr (q\<lparr>tau := Fin (1 / 2), bf := Fin 1, b := 1, mu := Fin 0\<rparr>)"
  by (simp add: update_timing_state_def uword_to_fp_def fp_sub_def fp_eval)

lemma update_hasty3:
  "tau q = Fin (- (1 / 2)) \<Longrightarrow> del q = Fin (1 / 4) \<Longrightarrow> npfb q = 2 \<Longrightarrow>
   update_timing_state q = Inl Undefined_Conversion"
  by (simp add: update_timing_state_def uword_to_fp_def fp_sub_def fp_eval)

lemma interp_half_4096:
  "mu q = Fin (1 / 2) \<Longrightarrow> y0 q = (4096, 0) \<Longrightarrow> y1 q = (4096, 0)
   \<Longrightarrow> interpolate q = (Fin (1 / 524288), Fin 0)"
  by (simp add: interpolate_def cscale_def cadd_def fp_sub_def cq31_12288 fp_eval)

lemma demo_hasty_iter1:
  "resamp_iter cfg_portable (demo_resamp\<lparr>rate := Fin 4, del := Fin (1 / 4), pfb := demo_pushed\<rparr>)
     [z, z, z] 0
   = Inr (demo_resamp\<lparr>rate := Fin 4, del := Fin (1 / 4), pfb := demo_pushed, y0 := (4096, 0),
            y1 := (4096, 0), tau := Fin (1 / 4), bf := Fin (1 / 2), b := 0, mu := Fin (1 / 2)\<rparr>,
          [(Fin (1 / 524288), Fin 0), z, z], 1)"
  by (simp add: resamp_iter_def demo_exec0 demo_exec1 demo_resamp_sel store_def
      interp_mu0 [where u = "1 / 524288" and v = "1 / 524288"] cq31_12288 fp32_small update_hasty1)

lemma demo_hasty_iter2:
  "resamp_iter cfg_portable
     (demo_resamp\<lparr>rate := Fin 4, del := Fin (1 / 4), pfb := demo_pushed, y0 := (4096, 0),
            y1 := (4096, 0), tau := Fin (1 / 4), bf := Fin (1 / 2), b := 0, mu := Fin (1 / 2)\<rparr>)
     [w, z, z] 1
   = Inr (demo_resamp\<lparr>rate := Fin 4, del := Fin (1 / 4), pfb := demo_pushed, y0 := (4096, 0),
            y1 := (4096, 0), tau := Fin (1 / 2), bf := Fin 1, b := 1, mu := Fin 0\<rparr>,
          [w, (Fin (1 / 524288), Fin 0), z], 2)"
  by (simp add: resamp_iter_def demo_exec0 demo_exec1 demo_resamp_sel store_def
      interp_half_4096 update_hasty2)

lemma demo_hasty_iter3:
  "resamp_iter cfg_portable
     (demo_resamp\<lparr>rate := Fin 4, del := Fin (1 / 4), pfb := demo_pushed, y0 := (4096, 0),
            y1 := (4096, 0), tau := Fin (1 / 2), bf := Fin 1, b := 1, mu := Fin 0\<rparr>) ys k
   = Inr (demo_resamp\<lparr>rate := Fin 4, del := Fin (1 / 4), pfb := demo_pushed, y0 := (4096, 0),
            y1 := (4096, 0), tau := Fin (1 / 2), bf := Fin 1, b := 2, mu := Fin 0,
            state := RESAMP_STATE_BOUNDARY\<rparr>, ys, k)"
  by (simp add: resamp_iter_def demo_exec1 demo_resamp_sel)

lemma demo_hasty_rebase:
  "resamp_rebase (demo_resamp\<lparr>rate := Fin 4, del := Fin (1 / 4), pfb := demo_pushed, y0 := (4096, 0),
            y1 := (4096, 0), tau := Fin (1 / 2), bf := Fin 1, b := 2, mu := Fin 0,
            state := RESAMP_STATE_BOUNDARY\<rparr>) = demo_hasty"
  by (simp add: resamp_rebase_def demo_resamp_def demo_hasty_def uword_to_fp_def fp_sub_def fp_eval)

lemma three: "(3 :: nat) = Suc (Suc (Suc 0))"
  by simp

lemma demo_hasty_call:
  "resamp_q15_execute cfg_portable 3 (resamp_q15_set_rate demo_resamp (Fin 4)) (1, 0) [z, z, z]
     = Inr (demo_hasty, [(Fin (1 / 524288), Fin 0), (Fin (1 / 524288), Fin 0), z], 2)"
proof -
  have "resamp_loop cfg_portable 3
      (demo_resamp\<lparr>rate := Fin 4, del := Fin (1 / 4), pfb := demo_pushed\<rparr>) [z, z, z] 0
    = Inr (demo_resamp\<lparr>rate := Fin 4, del := Fin (1 / 4), pfb := demo_pushed, y0 := (4096, 0),
            y1 := (4096, 0), tau := Fin (1 / 2), bf := Fin 1, b := 2, mu := Fin 0,
            state := RESAMP_STATE_BOUNDARY\<rparr>,
           [(Fin (1 / 524288), Fin 0), (Fin (1 / 524288), Fin 0), z], 2)"
    unfolding three
    by (subst loop_step [OF _ demo_hasty_iter1], simp add: demo_resamp_sel,
        subst loop_step [OF _ demo_hasty_iter2], simp add: demo_resamp_sel,
        subst loop_step [OF _ demo_hasty_iter3], simp add: demo_resamp_sel,
        subst loop_done, simp_all add: demo_resamp_sel)
  then show ?thesis
    by (simp add: resamp_q15_execute_def demo_hasty_rate demo_resamp_sel demo_push1
        demo_hasty_rebase del: resamp_loop.simps)
qed

lemma demo_hasty_pass:
  "resamp_iter cfg_portable (demo_hasty\<lparr>pfb := demo_pushed2\<rparr>) [z, z, z] 0
     = Inl Undefined_Conversion"
  by (simp add: resamp_iter_def demo_exec2 demo_hasty_sel store_def update_hasty3)

lemma demo_hasty_next:
  "resamp_q15_execute cfg_portable (Suc fuel) demo_hasty (2, 0) [z, z, z] = Inl Undefined_Conversion"
  by (simp add: resamp_q15_execute_def demo_hasty_sel demo_push2 demo_hasty_pass)

lemma demo_mid_call:
  "resamp_q15_execute cfg_portable 2 (resamp_q15_set_rate demo_resamp (Fin (11184811 / 8388608)))
     (1, 0) (replicate 2 (Fin 0, Fin 0))
   = Inr (demo_wait, [(Fin (1 / 524288), Fin 0), (Fin 0, Fin 0)], 1)"
proof -
  have r: "resamp_rebase (demo_mid\<lparr>state := RESAMP_STATE_BOUNDARY, b := 2\<rparr>) = demo_wait"
    by (simp add: resamp_rebase_def demo_mid_def demo_wait_def uword_to_fp_def fp_sub_def fp_eval)
  have "resamp_loop cfg_portable 2
      (demo_resamp\<lparr>rate := Fin (11184811 / 8388608), del := Fin (3 / 4), pfb := demo_pushed\<rparr>)
      (replicate 2 (Fin 0, Fin 0)) 0
    = Inr (demo_mid\<lparr>state := RESAMP_STATE_BOUNDARY, b := 2\<rparr>,
           [(Fin (1 / 524288), Fin 0), (Fin 0, Fin 0)], 1)"
  proof -
    have two: "(2::nat) = Suc (Suc 0)" by simp
    show ?thesis
      by (subst two, subst loop_step [OF _ demo_iter_mid], simp add: demo_resamp_sel,
          subst loop_step [OF _ demo_iter_last], simp add: demo_mid_def,
          subst loop_done, simp_all add: demo_mid_def)
  qed
  then show ?thesis
    by (simp add: resamp_q15_execute_def demo_set_rate demo_resamp_sel demo_push1 r
        del: resamp_loop.simps replicate.simps)
qed

section \<open>Creating a filter bank\<close>

text \<open>
  Claim C5, as the code has it.  Creating a filter bank stops with a fault whenever the
  phase count is zero, the total length is not a multiple of the phase count, or the
  taps per phase are not the build's count (\<open>NUM_TAPS\<close>: 8 or 16 for the 32 bit bank;
  16 for the 16 bit bank).  When the two requirements hold, the coefficient block has
  the stated length and every coefficient, scaled, converts to a value of the table's
  integer type, a bank is returned.
\<close>

theorem firpfb_create_preconditions:
  fixes n_f len :: "32 word"
  shows "(n_f = 0 \<longrightarrow>
            firpfb_q31_create cfg junk n_f hf len = Inl Div_By_Zero \<and>
            firpfb_q15_create junk' n_f hf len = Inl Div_By_Zero)
       \<and> (n_f \<noteq> 0 \<and> (\<not> unat n_f dvd unat len \<or> unat len div unat n_f \<noteq> unat (NUM_TAPS cfg)) \<longrightarrow>
            firpfb_q31_create cfg junk n_f hf len = Inl Assert_Failed)
       \<and> (n_f \<noteq> 0 \<and> (\<not> unat n_f dvd unat len \<or> unat len div unat n_f \<noteq> 16) \<longrightarrow>
            firpfb_q15_create junk' n_f hf len = Inl Assert_Failed)
       \<and> (n_f \<noteq> 0 \<and> unat n_f dvd unat len \<and> unat len div unat n_f = unat (NUM_TAPS cfg) \<and>
          unat len \<le> length hf \<and> (\<forall>k<unat len. \<exists>v. quant_q31 (hf ! k) = Inr v) \<longrightarrow>
            (\<exists>q. firpfb_q31_create cfg junk n_f hf len = Inr q))
       \<and> (n_f \<noteq> 0 \<and> unat n_f dvd unat len \<and> unat len div unat n_f = 16 \<and>
          unat len \<le> length hf \<and> (\<forall>k<unat len. \<exists>v. quant_q15 (hf ! k) = Inr v) \<longrightarrow>
            (\<exists>q. firpfb_q15_create junk' n_f hf len = Inr q))"
  using create_q31_asserts [of n_f len cfg junk hf] create_q15_asserts [of n_f len junk' hf]
    create_q31_succeeds [of n_f len cfg hf junk] create_q15_succeeds [of n_f len hf junk']
  by (simp add: firpfb_q31_create_def firpfb_q15_create_def)

theorem firpfb_create_preconditions_witness:
  "firpfb_q31_create cfg_portable zero_junk 0 (replicate 16 (Fin (1 / 2))) 16 = Inl Div_By_Zero
   \<and> firpfb_q31_create cfg_portable zero_junk 3 (replicate 16 (Fin (1 / 2))) 16 = Inl Assert_Failed
   \<and> firpfb_q15_create zero_junk 1 (replicate 16 (Fin (1 / 4))) 8 = Inl Assert_Failed
   \<and> (\<exists>q. firpfb_q31_create cfg_portable zero_junk 1 (replicate 16 (Fin (1 / 2))) 16 = Inr q)
   \<and> (\<exists>q. firpfb_q15_create zero_junk 1 (replicate 16 (Fin (1 / 4))) 16 = Inr q)"
  using firpfb_create_preconditions [where n_f = 0 and len = 16 and cfg = cfg_portable
      and junk = zero_junk and junk' = zero_junk and hf = "replicate 16 (Fin (1 / 2))"]
    firpfb_create_preconditions [where n_f = 3 and len = 16 and cfg = cfg_portable
      and junk = zero_junk and junk' = zero_junk and hf = "replicate 16 (Fin (1 / 2))"]
    firpfb_create_preconditions [where n_f = 1 and len = 8 and cfg = cfg_portable
      and junk = zero_junk and junk' = zero_junk and hf = "replicate 16 (Fin (1 / 4))"]
    firpfb_create_preconditions [where n_f = 1 and len = 16 and cfg = cfg_portable
      and junk = zero_junk and junk' = zero_junk and hf = "replicate 16 (Fin (1 / 2))"]
    firpfb_create_preconditions [where n_f = 1 and len = 16 and cfg = cfg_portable
      and junk = zero_junk and junk' = zero_junk and hf = "replicate 16 (Fin (1 / 4))"]
  by (simp add: unat_NUM_TAPS cfg_portable_def quant_q31_half quant_q15_quarter)

text \<open>
  Claim C5 as stated fails: with both requirements met, a coefficient \<open>1.0\<close> scales to
  \<open>2\<^sup>3\<^sup>1\<close> in single precision, which is not an \<^verbatim>\<open>int32_t\<close>.
\<close>

theorem firpfb_create_unit_tap_counterexample:
  "unat (1 :: 32 word) dvd unat (16 :: 32 word)
   \<and> unat (16 :: 32 word) div unat (1 :: 32 word) = unat (NUM_TAPS cfg_portable)
   \<and> firpfb_q31_create cfg_portable zero_junk 1 (replicate 16 (Fin 1)) 16 = Inl Undefined_Conversion"
  by (simp add: unat_NUM_TAPS cfg_portable_def firpfb_q31_create_def NUM_TAPS_def fill_taps_def
      upt_eval rd_def quant_q31_one)

section \<open>Quantisation of the coefficients\<close>

text \<open>
  Claim C6 at a failing input: the 16 bit table is filled by a conversion that discards
  the fraction, so the coefficient \<open>0.25\<close>, scaled to \<open>8191.75\<close>, is stored as 8191 and
  not as the nearest integer 8192.
\<close>

theorem firpfb_q15_create_truncates:
  "firpfb_q15_create zero_junk 1 (replicate 16 (Fin (1 / 4))) 16 =
     Inr \<lparr>nf = 1, h = replicate 32 8191, h_len = 16, h_sub_len = 16,
          window = replicate WINDOW_SIZE (0, 0), idx = 15\<rparr>
   \<and> round_half_even (1 / 4 * 32767) = 8192
   \<and> round_half_away (1 / 4 * 32767) = 8192"
  using q15_created by (simp add: round_half_even_def round_half_away_def)

section \<open>Pushing into the window\<close>

text \<open>
  Claim C7 at a failing input: a new bank receives the samples numbered 15 to 2047, which
  fills the window (its last 16 entries are the samples 2032 to 2047).  The push of
  sample 2048 compacts first, copying the entries 2032 to 2046: the 16 entries before
  the index are then the samples 2032 to 2046 and 2048.  Sample 2047 is lost and the
  stale sample 2032 is kept.
\<close>

theorem firpfb_push_compaction_drops_newest:
  "\<exists>q1 q2. push_all fresh_bank (map sample [15..<2048]) = Inr q1
      \<and> idx q1 = 2048 \<and> drop 2032 (window q1) = map sample [2032..<2048]
      \<and> firpfb_q31_push q1 (sample 2048) = Inr q2
      \<and> idx q2 = 16 \<and> take 16 (window q2) = map sample ([2032..<2047] @ [2048])"
proof -
  let ?w = "replicate 15 (0, 0) @ map sample [15..<2048]"
  let ?q1 = "fresh_bank\<lparr>window := ?w, idx := 2048\<rparr>"
  have p1: "push_all fresh_bank (map sample [15..<2048]) = Inr ?q1"
    using push_all_direct [of fresh_bank "map sample [15..<2048]"]
    by (simp add: fresh_bank_def WINDOW_SIZE_def del: upt_rec_numeral)
  have d: "drop 2032 ?w = map sample [2032..<2048]"
    by (simp add: drop_map del: upt_rec_numeral)
  let ?w2 = "(take 15 (drop 2032 ?w) @ drop 15 ?w)[15 := sample 2048]"
  have p2: "firpfb_q31_push ?q1 (sample 2048) = Inr (?q1\<lparr>window := ?w2, idx := 16\<rparr>)"
    using firpfb_push_compact [of ?q1 "sample 2048"]
    by (simp add: firpfb_q31_push_def fresh_bank_def WINDOW_SIZE_def del: upt_rec_numeral)
  have t: "take 16 ?w2 = map sample ([2032..<2047] @ [2048])"
  proof -
    have a: "take 15 (drop 2032 ?w) = map sample [2032..<2047]"
      by (simp add: drop_map take_map del: upt_rec_numeral)
    have "[15..<2048] = 15 # [16..<2048]"
      by (simp add: upt_conv_Cons del: upt_rec_numeral)
    then have c: "drop 15 ?w = sample 15 # map sample [16..<2048]"
      by (simp del: upt_rec_numeral)
    show ?thesis
      unfolding a c by (simp add: list_update_append del: upt_rec_numeral)
  qed
  show ?thesis
    using p1 p2 d t
    by (intro exI [of _ ?q1] exI [of _ "?q1\<lparr>window := ?w2, idx := 16\<rparr>"])
       (simp del: upt_rec_numeral)
qed

section \<open>Executing one phase\<close>

lemma q15_pushed:
  "firpfb_q15_push \<lparr>nf = 1, h = replicate 32 8191, h_len = 16, h_sub_len = 16,
          window = replicate WINDOW_SIZE (0, 0), idx = 15\<rparr> (100, 0)
   = Inr \<lparr>nf = 1, h = replicate 32 8191, h_len = 16, h_sub_len = 16,
          window = (replicate WINDOW_SIZE (0, 0))[15 := (100, 0)], idx = 16\<rparr>"
  unfolding firpfb_q15_push_def
  by (subst firpfb_push_direct) (simp_all add: WINDOW_SIZE_def)

lemma q15_scalar:
  "firpfb_q15_execute cfg_portable \<lparr>nf = 1, h = replicate 32 8191, h_len = 16, h_sub_len = 16,
          window = (replicate WINDOW_SIZE (0, 0))[15 := (100, 0)], idx = 16\<rparr> 0 = Inr (24, 0)"
  by (simp add: firpfb_q15_execute_def dotprod_q15_def cfg_portable_def dotprod_q15_scalar_def
      upt_eval rd_def WINDOW_SIZE_def nth_list_update)

lemma q15_neon:
  "firpfb_q15_execute cfg_neon \<lparr>nf = 1, h = replicate 32 8191, h_len = 16, h_sub_len = 16,
          window = (replicate WINDOW_SIZE (0, 0))[15 := (100, 0)], idx = 16\<rparr> 0 = Inl Out_Of_Bounds"
  by (simp add: firpfb_q15_execute_def dotprod_q15_def cfg_neon_def dotprod_q15_neon_def
      neon_mul_q15_def ld_def ld_cplx_def WINDOW_SIZE_def)

text \<open>
  Claim C8 at a failing input: the 16 bit bank with one phase of 16 taps, after one push.
  The portable loop multiplies the last 16 window samples with the phase's 16
  coefficients.  The NEON code compiled without \<^verbatim>\<open>USE_FAST_MATH\<close> goes on to the
  samples and coefficients 16 to 31: it reads the window past the write index and the
  coefficient table past its end.
\<close>

theorem firpfb_q15_execute_neon_reads_32_taps:
  "\<exists>q0 q1. firpfb_q15_create zero_junk 1 (replicate 16 (Fin (1 / 4))) 16 = Inr q0
     \<and> firpfb_q15_push q0 (100, 0) = Inr q1
     \<and> h_sub_len q1 = 16 \<and> length (h q1) = 32 \<and> idx q1 = 16
     \<and> firpfb_q15_execute cfg_portable q1 0 = Inr (24, 0)
     \<and> firpfb_q15_execute cfg_neon q1 0 = Inl Out_Of_Bounds"
  using q15_created q15_pushed q15_scalar q15_neon
  by (intro exI conjI) simp_all

section \<open>Creating a resampler\<close>



text \<open>
  Claim C10, as the code has it.  Provided \<open>2 * m * npfb + 1\<close> does not wrap around in 32 bits:
  when \<^verbatim>\<open>resamp_q15_create\<close> returns a resampler, \<open>2 * m\<close> is the build's tap count; all
  \<open>2 * m * npfb + 1\<close> designed coefficients were scaled by the gain; the bank was built from the
  first \<open>2 * m * npfb\<close> of them, with \<open>2 * m\<close> taps in each phase; and the installed coefficients
  sum to the sum of all the scaled ones less the last.
\<close>

theorem resamp_create_drops_last_tap:
  fixes m n_pfb :: "32 word"
  assumes "resamp_q15_create cfg des g m fc As n_pfb = Inr q"
    and "2 * unat m * unat n_pfb + 1 < 2 ^ 32"
  shows "2 * unat m = unat (NUM_TAPS cfg)
       \<and> nf (pfb q) = n_pfb \<and> h_len (pfb q) = 2 * m * n_pfb \<and> unat (h_sub_len (pfb q)) = 2 * unat m
       \<and> (\<exists>hf gain. resamp_taps des m fc As n_pfb = Inr hf
            \<and> 2 * unat m * unat n_pfb + 1 \<le> length hf
            \<and> take (2 * unat m * unat n_pfb + 1) hf =
                map (\<lambda>c. fp_mul binary32 c gain)
                  (take (2 * unat m * unat n_pfb + 1) (resamp_design des m fc As n_pfb))
            \<and> firpfb_q31_create cfg (g_tab g) n_pfb (take (2 * unat m * unat n_pfb) hf) (2 * m * n_pfb)
                = Inr (pfb q)
            \<and> sum_list (map fp_val (take (2 * unat m * unat n_pfb) hf))
                = sum_list (map fp_val (take (2 * unat m * unat n_pfb + 1) hf))
                  - fp_val (hf ! (2 * unat m * unat n_pfb)))"
proof -
  let ?L = "2 * unat m * unat n_pfb"
  from assms(1) obtain hf p where hf: "resamp_taps des m fc As n_pfb = Inr hf"
    and p: "firpfb_q31_create cfg (g_tab g) n_pfb hf (2 * m * n_pfb) = Inr p"
    and q: "pfb q = p"
    by (auto elim!: resamp_create_Inr)
  note u = unat_2mn [OF assms (2)]
  note c = firpfb_q31_create_Inr [OF p]
  have n0: "0 < unat n_pfb"
    using c(1) by (simp add: unat_gt_0)
  have taps: "2 * unat m = unat (NUM_TAPS cfg)"
    using c(3) n0 by (simp add: u)
  let ?d = "resamp_design des m fc As n_pfb"
  let ?gain = "fp_div binary32 (uword_to_fp binary32 n_pfb) (foldl (fp_add binary32) (Fin 0) (take (?L + 1) ?d))"
  have len: "?L + 1 \<le> length ?d" and hfeq: "hf = map (\<lambda>c. fp_mul binary32 c ?gain) (take (?L + 1) ?d) @ drop (?L + 1) ?d"
    using hf by (auto simp: resamp_taps_eq Let_def u split: if_splits)
  have l1: "?L + 1 \<le> length hf"
    using len by (simp add: hfeq)
  have t: "take (?L + 1) hf = map (\<lambda>c. fp_mul binary32 c ?gain) (take (?L + 1) ?d)"
    using len by (subst hfeq) simp
  have "take (Suc ?L) hf = take ?L hf @ [hf ! ?L]"
    using l1 by (intro take_Suc_conv_app_nth) simp
  then have s: "sum_list (map fp_val (take ?L hf))
        = sum_list (map fp_val (take (?L + 1) hf)) - fp_val (hf ! ?L)"
    by simp
  have "firpfb_q31_create cfg (g_tab g) n_pfb (take ?L hf) (2 * m * n_pfb) = Inr (pfb q)"
    using firpfb_q31_create_take [of cfg "g_tab g" n_pfb "2 * m * n_pfb" hf] p q by (simp add: u)
  then show ?thesis
    using taps c(4,5,6) q hf l1 t s by (auto simp: u)
qed

theorem resamp_create_drops_last_tap_witness:
  "resamp_q15_create cfg_portable trim_designer g_zero 8 (Fin (1 / 4)) (Fin 60) 2 = Inr demo_resamp
   \<and> 2 * unat (8 :: 32 word) * unat (2 :: 32 word) + 1 < 2 ^ 32
   \<and> 2 * unat (8 :: 32 word) = unat (NUM_TAPS cfg_portable)
   \<and> nf (pfb demo_resamp) = 2 \<and> h_len (pfb demo_resamp) = 32 \<and> unat (h_sub_len (pfb demo_resamp)) = 16
   \<and> firpfb_q31_create cfg_portable zero_junk 2 (replicate 32 (Fin (1 / 16))) 32 = Inr (pfb demo_resamp)
   \<and> sum_list (map fp_val (replicate 32 (Fin (1 / 16)))) = 2 - 0"
  using resamp_create_drops_last_tap [OF demo_created]
  by (simp add: demo_created trim_taps g_zero_sel sum_list_replicate)

text \<open>
  Claim C10 as stated fails when the length wraps around: with \<open>m = 1073741832\<close> and two phases,
  \<open>2 * m * npfb + 1\<close> is 33 in 32 bits, so the call succeeds although \<open>2 * m\<close> is not 16.
\<close>

theorem resamp_create_wraparound_counterexample:
  "(\<exists>q. resamp_q15_create cfg_portable flat_designer g_zero 1073741832 (Fin (1 / 4)) (Fin 60) 2 = Inr q)
   \<and> 2 * (1073741832 :: 32 word) \<noteq> NUM_TAPS cfg_portable
   \<and> 2 * unat (1073741832 :: 32 word) \<noteq> unat (NUM_TAPS cfg_portable)"
  using flat_bank
  by (auto simp: resamp_q15_create_def flat_taps_wrap g_zero_def unat_NUM_TAPS cfg_portable_def
      NUM_TAPS_def flat_len_wrap)

section \<open>Running the resampler\<close>




text \<open>
  Claim C2 at a failing input: two phases and the rate 4.  The first call stores two outputs
  and leaves the state \<open>BOUNDARY\<close> with \<open>tau = - 1/2\<close> and \<open>b = 0\<close>.  In the second call the timing
  update adds \<open>del = 1/4\<close>, multiplies by 2 and takes the floor: \<open>- 1\<close>.  Its conversion to
  \<^verbatim>\<open>unsigned int\<close>, which is to give the next phase index \<open>b\<close>, and from it \<open>mu\<close>, is
  undefined; the code does not check the sign.
\<close>

theorem resamp_timing_update_undefined:
  "resamp_q15_create cfg_portable trim_designer g_zero 8 (Fin (1 / 4)) (Fin 60) 2 = Inr demo_resamp
   \<and> npfb demo_resamp = 2
   \<and> rate (resamp_q15_set_rate demo_resamp (Fin 4)) = Fin 4
   \<and> del (resamp_q15_set_rate demo_resamp (Fin 4)) = Fin (1 / 4)
   \<and> resamp_q15_execute cfg_portable 3 (resamp_q15_set_rate demo_resamp (Fin 4)) (1, 0)
         [(Fin 0, Fin 0), (Fin 0, Fin 0), (Fin 0, Fin 0)]
       = Inr (demo_hasty, [(Fin (1 / 524288), Fin 0), (Fin (1 / 524288), Fin 0), (Fin 0, Fin 0)], 2)
   \<and> tau demo_hasty = Fin (- (1 / 2)) \<and> b demo_hasty = 0 \<and> b demo_hasty < npfb demo_hasty
   \<and> fp_add binary32 (tau demo_hasty) (del demo_hasty) = Fin (- (1 / 4))
   \<and> fp_mul binary32 (Fin (- (1 / 4))) (uword_to_fp binary32 (npfb demo_hasty)) = Fin (- (1 / 2))
   \<and> fp_floor (Fin (- (1 / 2))) = Fin (- 1)
   \<and> (fp_to_uword (Fin (- 1)) :: fault + 32 word) = Inl Undefined_Conversion
   \<and> (\<forall>p v. update_timing_state (demo_hasty\<lparr>pfb := p, y1 := v\<rparr>) = Inl Undefined_Conversion)
   \<and> (\<forall>fuel. resamp_q15_execute cfg_portable (Suc fuel) demo_hasty (2, 0)
         [(Fin 0, Fin 0), (Fin 0, Fin 0), (Fin 0, Fin 0)] = Inl Undefined_Conversion)"
  using demo_created demo_hasty_call demo_hasty_next
  by (simp add: demo_hasty_sel demo_resamp_sel demo_hasty_rate update_hasty3 uword_to_fp_def
      fp_eval)

section \<open>The number of outputs\<close>







end
